theory Spec2Isabelle
  imports
    Main
    "HOL-Library.Word"
    "HOL-Library.Char_ord"
    "HOL-Library.List_Lexorder"
    "HOL-Library.Product_Lexorder"
begin

section \<open>The analyzer of gosec (analyzer.go): data model\<close>

text \<open>
  A syntax node, as far as the analyzer looks at it: its identity (the pointer that keys
  the comment map), its concrete type (what \<^verbatim>\<open>reflect.TypeOf\<close> returns, the key of the
  rule set) and its children in the order \<^verbatim>\<open>ast.Walk\<close> visits them.
\<close>

datatype node = Node (node_id: nat) (node_type: string) (children: "node list")

text \<open>Go's \<^verbatim>\<open>error\<close> values: a loader error, the two errors of \<^verbatim>\<open>strconv.Atoi\<close>,
  and a run-time panic (an index out of range), which ends the call as well.\<close>

datatype go_error =
    LoaderError string
  | ErrSyntax string
  | ErrRange string
  | IndexPanic nat

text \<open>Modelled from the spec: \<^verbatim>\<open>Config\<close> (its declaration is not among the sources), a
  configuration object whose settings are passed through to the rule builders unchanged:
  a map from option names to values the analyzer never inspects.\<close>

type_synonym Config = "string \<rightharpoonup> string"

text \<open>Modelled from the spec: \<^verbatim>\<open>Issue\<close> (its declaration is not among the sources), with the
  rule identifier, the message, the file and the line. An issue is what a rule returns;
  the analyzer only stores it.\<close>

record Issue =
  RuleID :: string
  What :: string
  File :: string
  IssueLine :: int

text \<open>
  \<^verbatim>\<open>Context\<close>: the fields the analyzer itself reads or writes. \<^verbatim>\<open>Comments\<close> maps a node
  to the texts (\<^verbatim>\<open>group.Text()\<close>) of its comment groups; \<^verbatim>\<open>Imports\<close> is the import
  tracker, kept as the sequence of nodes handed to \<^verbatim>\<open>TrackImport\<close> since it was created;
  \<^verbatim>\<open>Ignores\<close> is the stack of exclusion maps, current scope first. The file set and the
  type information (\<^verbatim>\<open>FileSet\<close>, \<^verbatim>\<open>Info\<close>, \<^verbatim>\<open>Pkg\<close>) are opaque to the analyzer and left out.
\<close>

record Context =
  Comments :: "nat \<rightharpoonup> string list"
  PkgFiles :: "node list"
  Root :: "node option"
  CtxConfig :: Config
  Imports :: "node list"
  Ignores :: "(string \<rightharpoonup> bool) list"

text \<open>The counters are Go's \<^verbatim>\<open>int\<close>, 64 bits wide on the platforms gosec is built
  for; \<^verbatim>\<open>++\<close> and \<^verbatim>\<open>+=\<close> wrap around.\<close>

record Metrics =
  NumFiles :: "64 word"
  NumLines :: "64 word"
  NumNosec :: "64 word"
  NumFound :: "64 word"

text \<open>Modelled from the spec: \<^verbatim>\<open>Rule\<close> (its declaration is not among the sources), an identifier
  and a match operation. The match operation computes from the node and the context and
  keeps no state: a function that returns an issue (or nil) and an error (or nil).\<close>

record Rule =
  ID :: string
  Match :: "node \<Rightarrow> Context \<Rightarrow> Issue option \<times> go_error option"

text \<open>\<^verbatim>\<open>RuleSet\<close> is \<^verbatim>\<open>map[reflect.Type][]Rule\<close>.\<close>

type_synonym RuleSet = "string \<rightharpoonup> Rule list"

text \<open>Modelled from the spec: \<^verbatim>\<open>Error\<close> (its declaration is not among the sources), a load or
  parse error of one file: line, column and message.\<close>

record Error =
  Line :: int
  Column :: int
  Err :: string

text \<open>What the logger is asked to print, one entry per call. A rule error is kept with
  the rule's identifier and the node, in place of the rule's type, the file and the line
  that the message prints.\<close>

datatype log_entry =
    Skipping string
  | ImportDirectory string
  | CheckingPackage string
  | CheckingFile string
  | RuleError string go_error nat

text \<open>
  \<^verbatim>\<open>Analyzer\<close>. The field \<^verbatim>\<open>context\<close> is written \<open>ctxt\<close> here (and the field
  \<^verbatim>\<open>Config\<close> of the context \<open>CtxConfig\<close>). The logger is kept as what it has printed. \<open>match_calls\<close> is not a field
  of the Go struct: it records every call of a rule's \<^verbatim>\<open>Match\<close> (rule identifier, node
  identity) in the order the calls are made, so that "the match operation is not invoked"
  can be stated.
\<close>

record Analyzer =
  ignoreNosec :: bool
  ruleset :: RuleSet
  ctxt :: Context
  config :: Config
  logger :: "log_entry list"
  issues :: "Issue list"
  stats :: Metrics
  errors :: "string \<rightharpoonup> Error list"
  match_calls :: "(string \<times> nat) list"

text \<open>\<^verbatim>\<open>&Context{}\<close> and \<^verbatim>\<open>&Metrics{}\<close>: every field at its zero value.\<close>

definition empty_Context :: Context where
  "empty_Context = \<lparr>Comments = Map.empty, PkgFiles = [], Root = None, CtxConfig = Map.empty,
     Imports = [], Ignores = []\<rparr>"

definition zero_Metrics :: Metrics where
  "zero_Metrics = \<lparr>NumFiles = 0, NumLines = 0, NumNosec = 0, NumFound = 0\<rparr>"

text \<open>\<^verbatim>\<open>NewAnalyzer\<close>; the result of \<^verbatim>\<open>conf.IsGlobalEnabled(Nosec)\<close> is a parameter.\<close>

definition NewAnalyzer :: "(Config \<Rightarrow> go_error + bool) \<Rightarrow> Config \<Rightarrow> Analyzer" where
  "NewAnalyzer IsGlobalEnabled conf =
     \<lparr>ignoreNosec = (case IsGlobalEnabled conf of Inr enabled \<Rightarrow> enabled | Inl err \<Rightarrow> False),
      ruleset = Map.empty,
      ctxt = empty_Context,
      config = conf,
      logger = [],
      issues = [],
      stats = zero_Metrics,
      errors = Map.empty,
      match_calls = []\<rparr>"

section \<open>Report and Reset\<close>

definition Report :: "Analyzer \<Rightarrow> Issue list \<times> Metrics \<times> (string \<rightharpoonup> Error list)" where
  "Report gosec = (issues gosec, stats gosec, errors gosec)"

definition Reset :: "Analyzer \<Rightarrow> Analyzer" where
  "Reset gosec = gosec\<lparr>ctxt := empty_Context, issues := [], stats := zero_Metrics\<rparr>"

section \<open>The suppression directive: ignore\<close>

text \<open>\<^verbatim>\<open>strings.Contains(s, substr)\<close>: \<open>substr\<close> occurs in \<open>s\<close> as a contiguous block.\<close>

fun Contains :: "string \<Rightarrow> string \<Rightarrow> bool" where
  "Contains [] substr = (substr = [])"
| "Contains (c # cs) substr = (take (length substr) (c # cs) = substr \<or> Contains cs substr)"

definition is_digit :: "char \<Rightarrow> bool" where
  "is_digit c = (c \<in> set ''0123456789'')"

text \<open>
  \<^verbatim>\<open>regexp.MustCompile("(G\\d{3})").FindAllStringSubmatch(s, -1)\<close>, each match \<open>v\<close> given by
  its group \<open>v[1]\<close> (the whole match): the leftmost, non-overlapping occurrences of the
  letter G followed by three decimal digits, in the order they occur in \<open>s\<close>.
\<close>

fun FindAllStringSubmatch :: "string \<Rightarrow> string list" where
  "FindAllStringSubmatch [] = []"
| "FindAllStringSubmatch (c # cs) =
     (if c = CHR ''G'' \<and> 3 \<le> length cs \<and> list_all is_digit (take 3 cs)
      then (c # take 3 cs) # FindAllStringSubmatch (drop 3 cs)
      else FindAllStringSubmatch cs)"

text \<open>What that regular expression matches: the letter G and three decimal digits.\<close>

definition rule_code :: "string \<Rightarrow> bool" where
  "rule_code c = (length c = 4 \<and> hd c = CHR ''G'' \<and> list_all is_digit (tl c))"

text \<open>The loop of \<^verbatim>\<open>ignore\<close> over the comment groups of the node: the first group whose
  text contains the marker decides, and is counted.\<close>

fun ignore_groups :: "Analyzer \<Rightarrow> string list \<Rightarrow> (string list \<times> bool) \<times> Analyzer" where
  "ignore_groups gosec [] = (([], False), gosec)"
| "ignore_groups gosec (grp # groups) =
     (if Contains grp ''#nosec'' then
        (let gosec' = gosec\<lparr>stats := (stats gosec)\<lparr>NumNosec := NumNosec (stats gosec) + 1\<rparr>\<rparr>;
             matches = FindAllStringSubmatch grp
         in if matches = [] then (([], True), gosec') else ((matches, False), gosec'))
      else ignore_groups gosec groups)"

definition ignore :: "Analyzer \<Rightarrow> node \<Rightarrow> (string list \<times> bool) \<times> Analyzer" where
  "ignore gosec n =
     (case Comments (ctxt gosec) (node_id n) of
        Some groups \<Rightarrow>
          if \<not> ignoreNosec gosec then ignore_groups gosec groups else (([], False), gosec)
      | None \<Rightarrow> (([], False), gosec))"

section \<open>The rule set\<close>

text \<open>
  Modelled from the spec: \<^verbatim>\<open>RuleSet.Register\<close> and \<^verbatim>\<open>RuleSet.RegisteredFor\<close> (their code is
  not among the sources). \<^verbatim>\<open>register(rule, categories...)\<close> records the rule against each listed
  category, after the rules already recorded there; \<^verbatim>\<open>forCategory\<close> returns the rules
  registered for the category of the node, in that order, and none for an unknown category.
\<close>

fun Register :: "RuleSet \<Rightarrow> Rule \<Rightarrow> string list \<Rightarrow> RuleSet" where
  "Register r rule [] = r"
| "Register r rule (t # nodes) =
     Register (case r t of Some rules \<Rightarrow> r(t \<mapsto> rules @ [rule]) | None \<Rightarrow> r(t \<mapsto> [rule]))
       rule nodes"

definition RegisteredFor :: "RuleSet \<Rightarrow> node \<Rightarrow> Rule list" where
  "RegisteredFor r n = (case r (node_type n) of Some rules \<Rightarrow> rules | None \<Rightarrow> [])"

section \<open>Visit and the walk\<close>

text \<open>The loop of \<^verbatim>\<open>Visit\<close> over the rules registered for the node.\<close>

fun run_rules :: "Analyzer \<Rightarrow> node \<Rightarrow> (string \<rightharpoonup> bool) \<Rightarrow> Rule list \<Rightarrow> Analyzer" where
  "run_rules gosec n ignores [] = gosec"
| "run_rules gosec n ignores (rule # rules) =
     (if ignores (ID rule) \<noteq> None then run_rules gosec n ignores rules
      else
        (let (issue, err) = Match rule n (ctxt gosec);
             g1 = gosec\<lparr>match_calls := match_calls gosec @ [(ID rule, node_id n)]\<rparr>;
             g2 = (case err of
                     Some e \<Rightarrow> g1\<lparr>logger := logger g1 @ [RuleError (ID rule) e (node_id n)]\<rparr>
                   | None \<Rightarrow> g1);
             g3 = (case issue of
                     Some i \<Rightarrow> g2\<lparr>issues := issues g2 @ [i],
                                  stats := (stats g2)\<lparr>NumFound := NumFound (stats g2) + 1\<rparr>\<rparr>
                   | None \<Rightarrow> g2)
         in run_rules g3 n ignores rules))"

text \<open>The exclusions of a directive added to a map: \<^verbatim>\<open>ignores[v] = true\<close> for each.\<close>

fun add_ignored :: "(string \<rightharpoonup> bool) \<Rightarrow> string list \<Rightarrow> (string \<rightharpoonup> bool)" where
  "add_ignored ignores [] = ignores"
| "add_ignored ignores (v # ignoredRules) = add_ignored (ignores(v \<mapsto> True)) ignoredRules"

text \<open>
  \<^verbatim>\<open>Visit\<close>. The node is \<open>None\<close> for Go's nil (the end of a branch). The result says
  whether the visitor returned is the analyzer (\<open>True\<close>) or nil (\<open>False\<close>).
\<close>

fun Visit :: "Analyzer \<Rightarrow> node option \<Rightarrow> Analyzer \<times> bool" where
  "Visit gosec None =
     (if length (Ignores (ctxt gosec)) > 0
      then (gosec\<lparr>ctxt := (ctxt gosec)\<lparr>Ignores := tl (Ignores (ctxt gosec))\<rparr>\<rparr>, True)
      else (gosec, True))"
| "Visit gosec (Some n) =
     (let ((ignoredRules, ignoreAll), g1) = ignore gosec n in
      if ignoreAll then (g1, False)
      else
        (let ignores0 = (case Ignores (ctxt g1) of [] \<Rightarrow> Map.empty | parent # below \<Rightarrow> Map.empty ++ parent);
             ignores = add_ignored ignores0 ignoredRules;
             g2 = g1\<lparr>ctxt := (ctxt g1)\<lparr>Ignores := ignores # Ignores (ctxt g1)\<rparr>\<rparr>;
             g3 = g2\<lparr>ctxt := (ctxt g2)\<lparr>Imports := Imports (ctxt g2) @ [n]\<rparr>\<rparr>
         in (run_rules g3 n ignores (RegisteredFor (ruleset g3) n), True)))"

text \<open>
  \<^verbatim>\<open>ast.Walk(v, node)\<close> of the Go library, with the analyzer as the visitor: it calls
  \<^verbatim>\<open>Visit(node)\<close>; if that returns nil it returns at once; otherwise it walks the children
  in order and then calls \<^verbatim>\<open>Visit(nil)\<close>.
\<close>

fun Walk :: "Analyzer \<Rightarrow> node \<Rightarrow> Analyzer"
  and Walk_children :: "Analyzer \<Rightarrow> node list \<Rightarrow> Analyzer" where
  "Walk gosec (Node i t cs) =
     (case Visit gosec (Some (Node i t cs)) of
        (g1, False) \<Rightarrow> g1
      | (g1, True) \<Rightarrow> fst (Visit (Walk_children g1 cs) None))"
| "Walk_children gosec [] = gosec"
| "Walk_children gosec (c # cs) = Walk_children (Walk gosec c) cs"

section \<open>Positions in the walk\<close>

text \<open>
  A node of the tree under \<open>n\<close> is named by its path: the child indices from \<open>n\<close> down.
  \<open>enter_state gosec n p\<close> is the analyzer state in which \<^verbatim>\<open>Walk\<close>, started on \<open>n\<close> in
  state \<open>gosec\<close>, calls \<^verbatim>\<open>Visit\<close> on the node at path \<open>p\<close>: the state after the visits
  of its ancestors and the walks of the elder siblings on the way. It is \<open>None\<close> when the
  walk never reaches that node, because an ancestor made \<^verbatim>\<open>Visit\<close> return nil or because
  there is no such node.
\<close>

fun subtree :: "node \<Rightarrow> nat list \<Rightarrow> node option" where
  "subtree n [] = Some n"
| "subtree n (k # p) = (if k < length (children n) then subtree (children n ! k) p else None)"

fun enter_state :: "Analyzer \<Rightarrow> node \<Rightarrow> nat list \<Rightarrow> Analyzer option" where
  "enter_state gosec n [] = Some gosec"
| "enter_state gosec n (k # p) =
     (case Visit gosec (Some n) of
        (g1, False) \<Rightarrow> None
      | (g1, True) \<Rightarrow>
          if k < length (children n)
          then enter_state (Walk_children g1 (take k (children n))) (children n ! k) p
          else None)"

text \<open>The current scope: \<^verbatim>\<open>Ignores[0]\<close>, and no exclusion when the stack is empty.\<close>

definition top_Ignores :: "Analyzer \<Rightarrow> (string \<rightharpoonup> bool)" where
  "top_Ignores gosec = (case Ignores (ctxt gosec) of [] \<Rightarrow> Map.empty | s # below \<Rightarrow> s)"

text \<open>
  The active exclusion map at the node at path \<open>p\<close>: the map \<^verbatim>\<open>Visit\<close> pushes for it (the
  local \<^verbatim>\<open>ignores\<close>, read back from the top of the stack). There is none when the node is
  not reached or when its directive excludes all rules. \<open>explicit_at\<close> is the list of
  rule codes \<^verbatim>\<open>ignore\<close> returns for that node.
\<close>

definition active_at :: "Analyzer \<Rightarrow> node \<Rightarrow> nat list \<Rightarrow> (string \<rightharpoonup> bool) option" where
  "active_at gosec root p =
     (case enter_state gosec root p of
        None \<Rightarrow> None
      | Some s \<Rightarrow>
          (case subtree root p of
             None \<Rightarrow> None
           | Some n \<Rightarrow>
               (case Visit s (Some n) of
                  (s', False) \<Rightarrow> None
                | (s', True) \<Rightarrow> Some (top_Ignores s'))))"

definition explicit_at :: "Analyzer \<Rightarrow> node \<Rightarrow> nat list \<Rightarrow> string list" where
  "explicit_at gosec root p =
     (case enter_state gosec root p of
        None \<Rightarrow> []
      | Some s \<Rightarrow> (case subtree root p of None \<Rightarrow> [] | Some n \<Rightarrow> fst (fst (ignore s n))))"

text \<open>
  The nodes on which \<^verbatim>\<open>Walk\<close>, started on a node in state \<open>gosec\<close>, calls \<^verbatim>\<open>Visit\<close>, in the
  order of the calls: the node itself and, unless \<^verbatim>\<open>Visit\<close> returns nil for it, the nodes
  visited in the walks of its children, each child walked in the state its elder siblings
  leave.
\<close>

fun visited :: "Analyzer \<Rightarrow> node \<Rightarrow> node list"
  and visited_children :: "Analyzer \<Rightarrow> node list \<Rightarrow> node list" where
  "visited gosec (Node i t cs) =
     (case Visit gosec (Some (Node i t cs)) of
        (g1, False) \<Rightarrow> [Node i t cs]
      | (g1, True) \<Rightarrow> Node i t cs # visited_children g1 cs)"
| "visited_children gosec [] = []"
| "visited_children gosec (c # cs) = visited gosec c @ visited_children (Walk gosec c) cs"

text \<open>
  \<^verbatim>\<open>ignore\<close> finds a directive on the node: nosec handling is on and one of the node's
  comment groups contains the marker (the test of line 193 succeeds for some group).
\<close>

definition directive_found :: "Analyzer \<Rightarrow> node \<Rightarrow> bool" where
  "directive_found gosec n =
     (\<not> ignoreNosec gosec \<and>
      (case Comments (ctxt gosec) (node_id n) of
         Some groups \<Rightarrow> list_ex (\<lambda>g. Contains g ''#nosec'') groups
       | None \<Rightarrow> False))"

section \<open>LoadRules\<close>

text \<open>Modelled from the spec: \<^verbatim>\<open>RuleBuilder\<close> (its declaration is not among the sources), a
  function from the identifier and the configuration to the rule and the node types it
  applies to.\<close>

type_synonym RuleBuilder = "string \<Rightarrow> Config \<Rightarrow> Rule \<times> string list"

text \<open>
  \<^verbatim>\<open>for id, def := range ruleDefinitions\<close>: Go visits every key of the map once, in an order
  the language leaves unspecified and that changes from run to run. The order of one run
  is a parameter of the model: a list \<open>keys\<close> of the keys of the table, none twice.
\<close>

definition iteration_order :: "string list \<Rightarrow> (string \<rightharpoonup> RuleBuilder) \<Rightarrow> bool" where
  "iteration_order keys ruleDefinitions = (distinct keys \<and> set keys = dom ruleDefinitions)"

fun LoadRules_range :: "Analyzer \<Rightarrow> (string \<rightharpoonup> RuleBuilder) \<Rightarrow> string list \<Rightarrow> Analyzer" where
  "LoadRules_range gosec ruleDefinitions [] = gosec"
| "LoadRules_range gosec ruleDefinitions (id' # keys) =
     (case ruleDefinitions id' of
        None \<Rightarrow> LoadRules_range gosec ruleDefinitions keys
      | Some def \<Rightarrow>
          (let (r, nodes) = def id' (config gosec)
           in LoadRules_range (gosec\<lparr>ruleset := Register (ruleset gosec) r nodes\<rparr>)
                ruleDefinitions keys))"

definition LoadRules :: "Analyzer \<Rightarrow> string list \<Rightarrow> (string \<rightharpoonup> RuleBuilder) \<Rightarrow> Analyzer" where
  "LoadRules gosec keys ruleDefinitions = LoadRules_range gosec ruleDefinitions keys"

section \<open>Process\<close>

text \<open>A parsed file, as the analyzer uses it: its name, its tree, the comment map
  \<^verbatim>\<open>ast.NewCommentMap\<close> builds for it and its line count. A loaded package: its name, the
  texts (\<^verbatim>\<open>packErr.Error()\<close>) of its errors and its files.\<close>

record SourceFile =
  FileName :: string
  FileRoot :: node
  FileComments :: "nat \<rightharpoonup> string list"
  LineCount :: "64 word"

record Package =
  PkgName :: string
  PkgErrors :: "string list"
  Syntax :: "SourceFile list"

text \<open>
  The collaborators \<^verbatim>\<open>Process\<close> calls: \<^verbatim>\<open>GetPkgAbsPath\<close> (the path and an error, nil when
  the path exists), \<^verbatim>\<open>build.Default.ImportDir\<close> (the Go files of the directory),
  \<^verbatim>\<open>path.Join\<close> and \<^verbatim>\<open>packages.Load\<close>.
\<close>

record Loader =
  GetPkgAbsPath :: "string \<Rightarrow> string \<times> go_error option"
  ImportDir :: "string \<Rightarrow> go_error + string list"
  Join :: "string \<Rightarrow> string \<Rightarrow> string"
  Load :: "string list \<Rightarrow> go_error + Package list"

text \<open>Lines 119 to 132: the packages of one existing path, or the loader's error.\<close>

definition load_one :: "Loader \<Rightarrow> string \<Rightarrow> go_error + Package list" where
  "load_one L packagePath =
     (case ImportDir L packagePath of
        Inl err \<Rightarrow> Inl err
      | Inr goFiles \<Rightarrow> Load L (map (Join L packagePath) goFiles))"

text \<open>The first loop of \<^verbatim>\<open>Process\<close>, over the package paths.\<close>

fun load_pkgs ::
  "Loader \<Rightarrow> Analyzer \<Rightarrow> Package list \<Rightarrow> string list \<Rightarrow> (go_error + Package list) \<times> Analyzer" where
  "load_pkgs L gosec pkgs [] = (Inr pkgs, gosec)"
| "load_pkgs L gosec pkgs (packagePath # rest) =
     (case GetPkgAbsPath L packagePath of
        (abspath, Some err) \<Rightarrow>
          load_pkgs L (gosec\<lparr>logger := logger gosec @ [Skipping abspath]\<rparr>) pkgs rest
      | (abspath, None) \<Rightarrow>
          (let g1 = gosec\<lparr>logger := logger gosec @ [ImportDirectory abspath]\<rparr>
           in case load_one L packagePath of
                Inl err \<Rightarrow> (Inl err, g1)
              | Inr loaded \<Rightarrow> load_pkgs L g1 (pkgs @ loaded) rest))"

text \<open>\<^verbatim>\<open>strings.Split(s, ":")\<close> with a one-character separator.\<close>

fun Split :: "string \<Rightarrow> char \<Rightarrow> string list" where
  "Split [] sep = [[]]"
| "Split (c # cs) sep =
     (if c = sep then [] # Split cs sep
      else (case Split cs sep of x # xs \<Rightarrow> (c # x) # xs | [] \<Rightarrow> [[c]]))"

text \<open>
  \<^verbatim>\<open>strconv.Atoi\<close>: an optional sign and decimal digits, nothing else; a syntax error
  otherwise, and a range error when the value does not fit Go's 64-bit \<^verbatim>\<open>int\<close>.
\<close>

definition digit_val :: "char \<Rightarrow> int" where
  "digit_val c = int (of_char c) - 48"

definition Atoi :: "string \<Rightarrow> go_error + int" where
  "Atoi s =
     (let (neg, ds) =
            (case s of
               [] \<Rightarrow> (False, [])
             | c # r \<Rightarrow>
                 if c = CHR ''-'' then (True, r)
                 else if c = CHR ''+'' then (False, r) else (False, s))
      in if ds = [] \<or> \<not> list_all is_digit ds then Inl (ErrSyntax s)
         else
           (let v = foldl (\<lambda>a d. 10 * a + digit_val d) 0 ds;
                v' = (if neg then - v else v)
            in if v' < - (2 ^ 63) \<or> 2 ^ 63 - 1 < v' then Inl (ErrRange s) else Inr v'))"

text \<open>
  \<^verbatim>\<open>strings.TrimSpace\<close>: the leading and the trailing white space of the string is cut off.
  Go's strings are bytes in UTF-8, and white space is what \<^verbatim>\<open>unicode.IsSpace\<close> accepts: the
  six of ASCII, U+0085, U+00A0, U+1680, U+2000 to U+200A, U+2028, U+2029, U+202F, U+205F
  and U+3000, listed here by their encodings. A byte that starts no such encoding is not
  white space, and the cut ends there.
\<close>

definition white_space :: "string list" where
  "white_space =
     [[CHR 0x09], [CHR 0x0A], [CHR 0x0B], [CHR 0x0C], [CHR 0x0D], [CHR 0x20],
      [CHR 0xC2, CHR 0x85], [CHR 0xC2, CHR 0xA0],
      [CHR 0xE1, CHR 0x9A, CHR 0x80],
      [CHR 0xE2, CHR 0x80, CHR 0x80], [CHR 0xE2, CHR 0x80, CHR 0x81],
      [CHR 0xE2, CHR 0x80, CHR 0x82], [CHR 0xE2, CHR 0x80, CHR 0x83],
      [CHR 0xE2, CHR 0x80, CHR 0x84], [CHR 0xE2, CHR 0x80, CHR 0x85],
      [CHR 0xE2, CHR 0x80, CHR 0x86], [CHR 0xE2, CHR 0x80, CHR 0x87],
      [CHR 0xE2, CHR 0x80, CHR 0x88], [CHR 0xE2, CHR 0x80, CHR 0x89],
      [CHR 0xE2, CHR 0x80, CHR 0x8A],
      [CHR 0xE2, CHR 0x80, CHR 0xA8], [CHR 0xE2, CHR 0x80, CHR 0xA9],
      [CHR 0xE2, CHR 0x80, CHR 0xAF], [CHR 0xE2, CHR 0x81, CHR 0x9F],
      [CHR 0xE3, CHR 0x80, CHR 0x80]]"

function TrimLeft :: "string list \<Rightarrow> string \<Rightarrow> string" where
  "TrimLeft cutset s =
     (case find (\<lambda>e. e \<noteq> [] \<and> take (length e) s = e) cutset of
        None \<Rightarrow> s
      | Some e \<Rightarrow> TrimLeft cutset (drop (length e) s))"
  by pat_completeness auto
termination
proof (relation "measure (\<lambda>(cutset, s). length s)")
  show "wf (measure (\<lambda>(cutset, s). length s))" by simp
next
  fix cutset :: "string list" and s e :: string
  assume "find (\<lambda>e. e \<noteq> [] \<and> take (length e) s = e) cutset = Some e"
  then have "e \<noteq> []" and "take (length e) s = e"
    by (auto simp: find_Some_iff)
  then have "0 < length e" and "s \<noteq> []" by auto
  then show "((cutset, drop (length e) s), (cutset, s)) \<in> measure (\<lambda>(cutset, s). length s)"
    by simp
qed

declare TrimLeft.simps [simp del]

definition TrimSpace :: "string \<Rightarrow> string" where
  "TrimSpace s = rev (TrimLeft (map rev white_space) (rev (TrimLeft white_space s)))"

text \<open>
  The loop over the errors of one package (lines 138 to 161). An index past the end of
  \<^verbatim>\<open>infoErr\<close> panics, and a position that is not a number returns the error of
  \<^verbatim>\<open>Atoi\<close>: both end \<^verbatim>\<open>Process\<close> there.
\<close>

fun record_errors :: "Analyzer \<Rightarrow> string list \<Rightarrow> go_error option \<times> Analyzer" where
  "record_errors gosec [] = (None, gosec)"
| "record_errors gosec (packErr # rest) =
     (let infoErr = Split packErr CHR '':'';
          filePath = infoErr ! 0
      in if length infoErr < 2 then (Some (IndexPanic 1), gosec)
         else
           (case Atoi (infoErr ! 1) of
              Inl err \<Rightarrow> (Some err, gosec)
            | Inr line \<Rightarrow>
                if length infoErr < 3 then (Some (IndexPanic 2), gosec)
                else
                  (case Atoi (infoErr ! 2) of
                     Inl err \<Rightarrow> (Some err, gosec)
                   | Inr column \<Rightarrow>
                       if length infoErr < 4 then (Some (IndexPanic 3), gosec)
                       else
                         (let newErr = \<lparr>Line = line, Column = column,
                                         Err = TrimSpace (infoErr ! 3)\<rparr>;
                              g1 = gosec\<lparr>errors :=
                                     (case errors gosec filePath of
                                        Some errSlice \<Rightarrow>
                                          (errors gosec)(filePath \<mapsto> errSlice @ [newErr])
                                      | None \<Rightarrow> (errors gosec)(filePath \<mapsto> [] @ [newErr]))\<rparr>
                          in record_errors g1 rest))))"

fun record_pkgs_errors :: "Analyzer \<Rightarrow> Package list \<Rightarrow> go_error option \<times> Analyzer" where
  "record_pkgs_errors gosec [] = (None, gosec)"
| "record_pkgs_errors gosec (packageInfo # pkgs) =
     (if length (PkgErrors packageInfo) \<noteq> 0 then
        (case record_errors gosec (PkgErrors packageInfo) of
           (Some err, g1) \<Rightarrow> (Some err, g1)
         | (None, g1) \<Rightarrow> record_pkgs_errors g1 pkgs)
      else record_pkgs_errors gosec pkgs)"

text \<open>
  Modelled from the spec: \<^verbatim>\<open>sortErrors\<close> (its code is not among the sources). The errors of a
  file are put in a sequence sorted ascending by (line, column).
\<close>

definition sortErrors :: "(string \<rightharpoonup> Error list) \<Rightarrow> (string \<rightharpoonup> Error list)" where
  "sortErrors allErrors =
     (\<lambda>file. map_option (sort_key (\<lambda>e. (Line e, Column e))) (allErrors file))"

text \<open>The last loops of \<^verbatim>\<open>Process\<close>: every file of every package is walked. A new import
  tracker starts with no node tracked.\<close>

definition check_file :: "Analyzer \<Rightarrow> Package \<Rightarrow> SourceFile \<Rightarrow> Analyzer" where
  "check_file gosec pkg file =
     (let g1 = gosec\<lparr>logger := logger gosec @ [CheckingFile (FileName file)]\<rparr>;
          g2 = g1\<lparr>ctxt := (ctxt g1)\<lparr>CtxConfig := config g1,
                                     Comments := FileComments file,
                                     Root := Some (FileRoot file),
                                     PkgFiles := map FileRoot (Syntax pkg),
                                     Imports := []\<rparr>\<rparr>;
          g3 = Walk g2 (FileRoot file);
          g4 = g3\<lparr>stats := (stats g3)\<lparr>NumFiles := NumFiles (stats g3) + 1\<rparr>\<rparr>
      in g4\<lparr>stats := (stats g4)\<lparr>NumLines := NumLines (stats g4) + LineCount file\<rparr>\<rparr>)"

fun check_files :: "Analyzer \<Rightarrow> Package \<Rightarrow> SourceFile list \<Rightarrow> Analyzer" where
  "check_files gosec pkg [] = gosec"
| "check_files gosec pkg (file # files) = check_files (check_file gosec pkg file) pkg files"

fun check_pkgs :: "Analyzer \<Rightarrow> Package list \<Rightarrow> Analyzer" where
  "check_pkgs gosec [] = gosec"
| "check_pkgs gosec (pkg # pkgs) =
     check_pkgs
       (check_files (gosec\<lparr>logger := logger gosec @ [CheckingPackage (PkgName pkg)]\<rparr>) pkg
          (Syntax pkg))
       pkgs"

text \<open>\<^verbatim>\<open>Process\<close>: the error it returns (\<open>None\<close> for nil) and the analyzer it leaves. The
  build tags only reach a local copy of the build context that nothing reads.\<close>

definition Process ::
  "Loader \<Rightarrow> Analyzer \<Rightarrow> string list \<Rightarrow> string list \<Rightarrow> go_error option \<times> Analyzer" where
  "Process L gosec buildTags packagePaths =
     (case load_pkgs L gosec [] packagePaths of
        (Inl err, g1) \<Rightarrow> (Some err, g1)
      | (Inr pkgs, g1) \<Rightarrow>
          (case record_pkgs_errors g1 pkgs of
             (Some err, g2) \<Rightarrow> (Some err, g2)
           | (None, g2) \<Rightarrow> (None, check_pkgs (g2\<lparr>errors := sortErrors (errors g2)\<rparr>) pkgs)))"

section \<open>Example inputs\<close>

text \<open>A rule that reports every node it is asked about.\<close>

definition ex_rule :: "string \<Rightarrow> Rule" where
  "ex_rule rid =
     \<lparr>ID = rid,
      Match = (\<lambda>n c. (Some \<lparr>RuleID = rid, What = ''finding'', File = ''main.go'',
                               IssueLine = int (node_id n)\<rparr>, None))\<rparr>"

text \<open>
  A file with three statements: a call whose directive names G101, over a binary
  expression whose directive names G104 and G105; a call with the bare marker, over a
  binary expression whose directive names G103; and a binary expression with no comment.
\<close>

definition ex_call :: node where
  "ex_call = Node 1 ''CallExpr'' [Node 2 ''BinaryExpr'' []]"

definition ex_silenced :: node where
  "ex_silenced = Node 3 ''CallExpr'' [Node 4 ''BinaryExpr'' []]"

definition ex_tree :: node where
  "ex_tree = Node 0 ''File'' [ex_call, ex_silenced, Node 5 ''BinaryExpr'' []]"

definition ex_comments :: "nat \<rightharpoonup> string list" where
  "ex_comments =
     [1 \<mapsto> [''#nosec G101''], 2 \<mapsto> [''#nosec G104 G105''], 3 \<mapsto> [''#nosec''],
      4 \<mapsto> [''#nosec G103'']]"

definition ex_analyzer :: Analyzer where
  "ex_analyzer =
     \<lparr>ignoreNosec = False,
      ruleset = [''CallExpr'' \<mapsto> [ex_rule ''G101'', ex_rule ''G103''],
                 ''BinaryExpr'' \<mapsto> [ex_rule ''G102'']],
      ctxt = empty_Context\<lparr>Comments := ex_comments\<rparr>,
      config = Map.empty, logger = [], issues = [], stats = zero_Metrics,
      errors = Map.empty, match_calls = []\<rparr>"

text \<open>The example analyzer with one comment, on node 0.\<close>

definition directive_analyzer :: "string \<Rightarrow> Analyzer" where
  "directive_analyzer comment =
     ex_analyzer\<lparr>ctxt := empty_Context\<lparr>Comments := [0 \<mapsto> [comment]]\<rparr>\<rparr>"

text \<open>The example analyzer with two comment groups on node 0, both with the marker.\<close>

definition two_directives_analyzer :: Analyzer where
  "two_directives_analyzer =
     ex_analyzer\<lparr>ctxt := empty_Context\<lparr>Comments := [0 \<mapsto> [''#nosec G101'', ''#nosec'']]\<rparr>\<rparr>"

text \<open>A rule-definition table with two rules for call expressions, and a new analyzer.\<close>

definition ex_builder :: "string list \<Rightarrow> RuleBuilder" where
  "ex_builder nodes = (\<lambda>id' conf. (ex_rule id', nodes))"

definition ex_definitions :: "string \<rightharpoonup> RuleBuilder" where
  "ex_definitions = [''G101'' \<mapsto> ex_builder [''CallExpr''], ''G102'' \<mapsto> ex_builder [''CallExpr'']]"

definition new_analyzer :: Analyzer where
  "new_analyzer = NewAnalyzer (\<lambda>conf. Inr False) Map.empty"

text \<open>
  A loader for which the path \<^verbatim>\<open>./missing\<close> does not exist, \<^verbatim>\<open>./broken\<close> has no Go
  files to import, and every other path loads the example file as package main; and a
  loader whose package has no file and the given errors.
\<close>

definition ex_file :: SourceFile where
  "ex_file = \<lparr>FileName = ''main.go'', FileRoot = ex_tree, FileComments = ex_comments,
              LineCount = 12\<rparr>"

definition ex_package :: Package where
  "ex_package = \<lparr>PkgName = ''main'', PkgErrors = [], Syntax = [ex_file]\<rparr>"

definition ex_loader :: Loader where
  "ex_loader =
     \<lparr>GetPkgAbsPath = (\<lambda>p. if p = ''./missing''
                             then ('''', Some (LoaderError ''no project absolute path found''))
                             else (''/src/'' @ p, None)),
      ImportDir = (\<lambda>p. if p = ''./broken''
                         then Inl (LoaderError ''no buildable Go source files'')
                         else Inr [''main.go'']),
      Join = (\<lambda>d f. d @ ''/'' @ f),
      Load = (\<lambda>files. Inr [ex_package])\<rparr>"

definition errors_loader :: "string list \<Rightarrow> Loader" where
  "errors_loader errs =
     ex_loader\<lparr>Load := (\<lambda>files. Inr [\<lparr>PkgName = ''main'', PkgErrors = errs, Syntax = []\<rparr>])\<rparr>"

section \<open>Properties\<close>

subsection \<open>What ignore changes\<close>

lemma ignore_groups_frame:
  "snd (ignore_groups g gs) =
     g\<lparr>stats := (stats g)\<lparr>NumNosec := NumNosec (stats (snd (ignore_groups g gs)))\<rparr>\<rparr>"
  by (induction gs) (simp_all add: Let_def)

lemma ignore_frame:
  "snd (ignore g n) = g\<lparr>stats := (stats g)\<lparr>NumNosec := NumNosec (stats (snd (ignore g n)))\<rparr>\<rparr>"
  unfolding ignore_def using ignore_groups_frame [of g]
  by (simp split: option.splits)

lemma ignore_ctxt [simp]: "ctxt (snd (ignore g n)) = ctxt g"
  by (subst ignore_frame) simp

lemma ignore_other_fields:
  "issues (snd (ignore g n)) = issues g"
  "match_calls (snd (ignore g n)) = match_calls g"
  "ruleset (snd (ignore g n)) = ruleset g"
  "errors (snd (ignore g n)) = errors g"
  "logger (snd (ignore g n)) = logger g"
  "config (snd (ignore g n)) = config g"
  "ignoreNosec (snd (ignore g n)) = ignoreNosec g"
  "NumFound (stats (snd (ignore g n))) = NumFound (stats g)"
  "NumFiles (stats (snd (ignore g n))) = NumFiles (stats g)"
  "NumLines (stats (snd (ignore g n))) = NumLines (stats g)"
  by (subst ignore_frame, simp)+

lemma ignore_groups_result:
  "ignore_groups g (pre @ x # post) =
     (if list_ex (\<lambda>y. Contains y ''#nosec'') pre then ignore_groups g pre
      else if Contains x ''#nosec''
      then ((FindAllStringSubmatch x, FindAllStringSubmatch x = []),
            g\<lparr>stats := (stats g)\<lparr>NumNosec := NumNosec (stats g) + 1\<rparr>\<rparr>)
      else ignore_groups g post)"
  by (induction pre) (simp_all add: Let_def)

lemma ignore_groups_none:
  "\<not> list_ex (\<lambda>y. Contains y ''#nosec'') gs \<Longrightarrow> ignore_groups g gs = (([], False), g)"
  by (induction gs) simp_all

lemma ignore_groups_NumNosec:
  "NumNosec (stats (snd (ignore_groups g gs))) =
     NumNosec (stats g) + (if list_ex (\<lambda>y. Contains y ''#nosec'') gs then 1 else 0)"
  by (induction gs) (simp_all add: Let_def)

subsection \<open>The rule loop\<close>

lemma run_rules_ctxt [simp]: "ctxt (run_rules g n ig rs) = ctxt g"
  by (induction rs arbitrary: g) (simp_all add: Let_def split: prod.splits option.splits)

lemma run_rules_calls:
  "match_calls (run_rules g n ig rs) =
     match_calls g @ map (\<lambda>r. (ID r, node_id n)) (filter (\<lambda>r. ID r \<notin> dom ig) rs)"
  by (induction rs arbitrary: g)
     (auto simp: Let_def domIff split: prod.splits option.splits)

lemma run_rules_issues:
  "issues (run_rules g n ig rs) =
     issues g @ List.map_filter (\<lambda>r. fst (Match r n (ctxt g))) (filter (\<lambda>r. ID r \<notin> dom ig) rs)"
  by (induction rs arbitrary: g)
     (auto simp: Let_def domIff List.map_filter_simps split: prod.splits option.splits)

lemma run_rules_errors [simp]: "errors (run_rules g n ig rs) = errors g"
  by (induction rs arbitrary: g) (simp_all add: Let_def split: prod.splits option.splits)

lemma dom_add_ignored: "dom (add_ignored m vs) = dom m \<union> set vs"
  by (induction vs arbitrary: m) auto

subsection \<open>Visit pushes one scope, the walk of a node pops what it pushed\<close>

lemma Visit_Some_unfold:
  "Visit g (Some n) =
     (if snd (fst (ignore g n)) then (snd (ignore g n), False)
      else (run_rules
              ((snd (ignore g n))\<lparr>ctxt := (ctxt g)\<lparr>
                  Ignores := add_ignored (top_Ignores g) (fst (fst (ignore g n))) # Ignores (ctxt g),
                  Imports := Imports (ctxt g) @ [n]\<rparr>\<rparr>)
              n (add_ignored (top_Ignores g) (fst (fst (ignore g n))))
              (RegisteredFor (ruleset (snd (ignore g n))) n), True))"
proof -
  obtain codes allflag g1 where ig: "ignore g n = ((codes, allflag), g1)"
    by (metis prod.exhaust)
  have c: "ctxt g1 = ctxt g" using ignore_ctxt [of g n] ig by simp
  show ?thesis
    by (simp add: ig c Let_def top_Ignores_def split: list.splits)
qed

lemma Visit_leave_Ignores:
  "Ignores (ctxt (fst (Visit g None))) = tl (Ignores (ctxt g))"
  by simp

lemma Visit_leave_errors:
  "errors (fst (Visit g None)) = errors g"
  by simp

declare Visit.simps [simp del]

lemma Visit_enter:
  assumes "Visit g (Some n) = (g', True)"
  shows "Ignores (ctxt g') = add_ignored (top_Ignores g) (fst (fst (ignore g n))) # Ignores (ctxt g)"
  using assms unfolding Visit_Some_unfold by (auto split: if_splits)

lemma Visit_pruned:
  assumes "Visit g (Some n) = (g', False)"
  shows "g' = snd (ignore g n)" and "snd (fst (ignore g n))"
  using assms unfolding Visit_Some_unfold by (auto split: if_splits)

lemma Visit_Some_errors: "errors (fst (Visit g (Some n))) = errors g"
  by (simp add: Visit_Some_unfold ignore_other_fields)

lemma Walk_Ignores:
  "Ignores (ctxt (Walk g n)) = Ignores (ctxt g)"
  "Ignores (ctxt (Walk_children g ns)) = Ignores (ctxt g)"
proof (induction g n and g ns rule: Walk_Walk_children.induct)
  case (1 gosec i t cs)
  show ?case
  proof (cases "Visit gosec (Some (Node i t cs))")
    case (Pair g1 v)
    show ?thesis
    proof (cases v)
      case True
      with Pair 1 have "Ignores (ctxt (Walk_children g1 cs)) = Ignores (ctxt g1)" by simp
      moreover from Pair True have "tl (Ignores (ctxt g1)) = Ignores (ctxt gosec)"
        using Visit_enter by simp
      moreover from Pair True have "Ignores (ctxt g1) \<noteq> []"
        using Visit_enter by simp
      ultimately show ?thesis using Pair True by (simp add: Visit_leave_Ignores)
    next
      case False
      with Pair have "g1 = snd (ignore gosec (Node i t cs))" using Visit_pruned(1) by simp
      then show ?thesis using Pair False by simp
    qed
  qed
next
  case (2 gosec)
  show ?case by simp
next
  case (3 gosec c cs)
  then show ?case by simp
qed

lemma Walk_errors:
  "errors (Walk g n) = errors g"
  "errors (Walk_children g ns) = errors g"
proof (induction g n and g ns rule: Walk_Walk_children.induct)
  case (1 gosec i t cs)
  show ?case
  proof (cases "Visit gosec (Some (Node i t cs))")
    case (Pair g1 v)
    have e: "errors g1 = errors gosec"
      using Visit_Some_errors [of gosec "Node i t cs"] Pair by simp
    show ?thesis
    proof (cases v)
      case True
      with Pair 1 have "errors (Walk_children g1 cs) = errors g1" by simp
      with e Pair True show ?thesis by (simp add: Visit_leave_errors)
    next
      case False
      with e Pair show ?thesis by simp
    qed
  qed
next
  case (2 gosec)
  show ?case by simp
next
  case (3 gosec c cs)
  then show ?case by simp
qed

text \<open>The state in which the walk of the children reaches child \<open>k\<close> is the state after
  the walks of the children before it, which is what \<open>enter_state\<close> takes.\<close>

lemma Walk_children_split:
  "k < length cs \<Longrightarrow>
   Walk_children g cs =
     Walk_children (Walk (Walk_children g (take k cs)) (cs ! k)) (drop (Suc k) cs)"
proof (induction cs arbitrary: g k)
  case Nil
  then show ?case by simp
next
  case (Cons c cs)
  then show ?case by (cases k) simp_all
qed

lemma subtree_append:
  "subtree n (p @ q) = (case subtree n p of None \<Rightarrow> None | Some m \<Rightarrow> subtree m q)"
  by (induction p arbitrary: n) simp_all

lemma enter_state_append:
  "enter_state g n (p @ q) =
     (case enter_state g n p of
        None \<Rightarrow> None
      | Some s \<Rightarrow> (case subtree n p of None \<Rightarrow> None | Some m \<Rightarrow> enter_state s m q))"
proof (induction p arbitrary: g n)
  case Nil
  show ?case by simp
next
  case (Cons k p)
  obtain g1 v where vis: "Visit g (Some n) = (g1, v)" by (metis prod.exhaust)
  show ?case
    using Cons [of "Walk_children g1 (take k (children n))" "children n ! k"]
    by (cases v; cases "k < length (children n)") (simp_all add: vis split: option.splits)
qed

lemma top_Ignores_cong:
  "Ignores (ctxt g) = Ignores (ctxt g') \<Longrightarrow> top_Ignores g = top_Ignores g'"
  by (simp add: top_Ignores_def)

lemma active_at_root:
  assumes "active_at g root [] = Some S"
  shows "S = add_ignored (top_Ignores g) (explicit_at g root [])"
proof -
  from assms obtain s' where v: "Visit g (Some root) = (s', True)" and S: "S = top_Ignores s'"
    by (auto simp: active_at_def split: prod.splits bool.splits)
  from Visit_enter [OF v] S show ?thesis
    by (simp add: top_Ignores_def explicit_at_def)
qed

lemma active_at_step:
  assumes "active_at g root (p @ [k]) = Some S"
  shows "\<exists>P. active_at g root p = Some P \<and> S = add_ignored P (explicit_at g root (p @ [k]))"
proof -
  from assms obtain s2 c s3 where
    e2: "enter_state g root (p @ [k]) = Some s2" and
    c: "subtree root (p @ [k]) = Some c" and
    v3: "Visit s2 (Some c) = (s3, True)" and
    S: "S = top_Ignores s3"
    by (auto simp: active_at_def split: option.splits prod.splits bool.splits)
  from e2 obtain s m where
    e: "enter_state g root p = Some s" and
    m: "subtree root p = Some m" and
    ek: "enter_state s m [k] = Some s2"
    by (auto simp: enter_state_append split: option.splits)
  from ek obtain g1 where
    v1: "Visit s (Some m) = (g1, True)" and
    s2: "s2 = Walk_children g1 (take k (children m))"
    by (auto split: prod.splits bool.splits if_splits)
  have P: "active_at g root p = Some (top_Ignores g1)"
    by (simp add: active_at_def e m v1)
  have "Ignores (ctxt s2) = Ignores (ctxt g1)"
    by (simp add: s2 Walk_Ignores(2))
  then have t: "top_Ignores s2 = top_Ignores g1"
    by (rule top_Ignores_cong)
  have x: "explicit_at g root (p @ [k]) = fst (fst (ignore s2 c))"
    by (simp add: explicit_at_def e2 c)
  from Visit_enter [OF v3]
  have "top_Ignores s3 = add_ignored (top_Ignores s2) (fst (fst (ignore s2 c)))"
    by (simp add: top_Ignores_def)
  with S t x P show ?thesis by simp
qed

lemma active_at_prefix:
  assumes "active_at g root (p @ q) = Some S"
  shows "\<exists>P. active_at g root p = Some P \<and> dom P \<subseteq> dom S"
  using assms
proof (induction q arbitrary: S rule: rev_induct)
  case Nil
  then show ?case by simp
next
  case (snoc k q)
  from snoc.prems have "active_at g root ((p @ q) @ [k]) = Some S" by simp
  from active_at_step [OF this] obtain P' where
    P': "active_at g root (p @ q) = Some P'" and
    S: "S = add_ignored P' (explicit_at g root ((p @ q) @ [k]))"
    by blast
  from snoc.IH [OF P'] obtain P where "active_at g root p = Some P" and "dom P \<subseteq> dom P'"
    by blast
  moreover from S have "dom P' \<subseteq> dom S" by (simp add: dom_add_ignored)
  ultimately show ?case by blast
qed

lemmas ex_defs = ex_rule_def ex_call_def ex_silenced_def ex_tree_def ex_comments_def
  ex_analyzer_def empty_Context_def zero_Metrics_def ignore_def RegisteredFor_def
  is_digit_def Let_def Visit.simps top_Ignores_def

subsection \<open>The scoped exclusions\<close>

text \<open>
  C1. For every node N the walk visits, the active exclusion set computed at N is the
  union of the active set at N's parent and the rule codes of N's own directive (none if
  N has no directive); for the root, the parent's set is the scope the walk starts in.
  Along a path from the root the active set never shrinks: the set at any ancestor is
  included in the set at each of its descendants.
\<close>

theorem active_set_is_parent_union_directive:
  "(active_at gosec root [] = Some S0 \<longrightarrow>
      S0 = add_ignored (top_Ignores gosec) (explicit_at gosec root []) \<and>
      dom S0 = dom (top_Ignores gosec) \<union> set (explicit_at gosec root [])) \<and>
   (active_at gosec root (p @ [k]) = Some S \<longrightarrow>
      (\<exists>P. active_at gosec root p = Some P \<and>
           S = add_ignored P (explicit_at gosec root (p @ [k])) \<and>
           dom S = dom P \<union> set (explicit_at gosec root (p @ [k])))) \<and>
   (active_at gosec root (p @ q) = Some S' \<longrightarrow>
      (\<exists>P'. active_at gosec root p = Some P' \<and> dom P' \<subseteq> dom S'))"
proof (intro conjI impI)
  assume a: "active_at gosec root [] = Some S0"
  from active_at_root [OF a]
  show "S0 = add_ignored (top_Ignores gosec) (explicit_at gosec root [])" .
  then show "dom S0 = dom (top_Ignores gosec) \<union> set (explicit_at gosec root [])"
    by (simp add: dom_add_ignored)
next
  assume a: "active_at gosec root (p @ [k]) = Some S"
  from active_at_step [OF a] obtain P where
    "active_at gosec root p = Some P" and "S = add_ignored P (explicit_at gosec root (p @ [k]))"
    by blast
  then show "\<exists>P. active_at gosec root p = Some P \<and>
           S = add_ignored P (explicit_at gosec root (p @ [k])) \<and>
           dom S = dom P \<union> set (explicit_at gosec root (p @ [k]))"
    by (simp add: dom_add_ignored)
next
  assume a: "active_at gosec root (p @ q) = Some S'"
  from active_at_prefix [OF a]
  show "\<exists>P'. active_at gosec root p = Some P' \<and> dom P' \<subseteq> dom S'" .
qed

text \<open>In the example the file starts with no exclusion, the first call (path 0) adds
  G101, and the binary expression under it (path 0, 0) inherits G101 and adds G104 and
  G105 of its own.\<close>

theorem active_set_is_parent_union_directive_witness:
  "active_at ex_analyzer ex_tree [] = Some Map.empty \<and>
   explicit_at ex_analyzer ex_tree [] = [] \<and>
   active_at ex_analyzer ex_tree [0] = Some [''G101'' \<mapsto> True] \<and>
   active_at ex_analyzer ex_tree [0, 0] =
     Some [''G101'' \<mapsto> True, ''G104'' \<mapsto> True, ''G105'' \<mapsto> True] \<and>
   explicit_at ex_analyzer ex_tree [0, 0] = [''G104'', ''G105''] \<and>
   Map.empty = add_ignored (top_Ignores ex_analyzer) (explicit_at ex_analyzer ex_tree []) \<and>
   (\<exists>P. active_at ex_analyzer ex_tree [0] = Some P \<and>
        [''G101'' \<mapsto> True, ''G104'' \<mapsto> True, ''G105'' \<mapsto> True] =
          add_ignored P (explicit_at ex_analyzer ex_tree [0, 0]) \<and>
        dom [''G101'' \<mapsto> True, ''G104'' \<mapsto> True, ''G105'' \<mapsto> True] =
          dom P \<union> set (explicit_at ex_analyzer ex_tree [0, 0])) \<and>
   (\<exists>P'. active_at ex_analyzer ex_tree [] = Some P' \<and>
        dom P' \<subseteq> dom [''G101'' \<mapsto> True, ''G104'' \<mapsto> True, ''G105'' \<mapsto> True])"
proof -
  let ?M = "[''G101'' \<mapsto> True, ''G104'' \<mapsto> True, ''G105'' \<mapsto> True]"
  have h0: "active_at ex_analyzer ex_tree [] = Some Map.empty"
    by (simp add: ex_defs active_at_def)
  have x0: "explicit_at ex_analyzer ex_tree [] = []"
    by code_simp
  have h1: "active_at ex_analyzer ex_tree [0] = Some [''G101'' \<mapsto> True]"
    by (simp add: ex_defs active_at_def)
  have h: "active_at ex_analyzer ex_tree ([0] @ [0]) = Some ?M"
    by (simp add: ex_defs active_at_def)
  have h': "active_at ex_analyzer ex_tree ([] @ [0, 0]) = Some ?M"
    using h by simp
  have x2: "explicit_at ex_analyzer ex_tree [0, 0] = [''G104'', ''G105'']"
    by code_simp
  note T = active_set_is_parent_union_directive [where gosec = ex_analyzer and root = ex_tree]
  note root = T [where ?S0.0 = Map.empty, THEN conjunct1, THEN mp, OF h0, THEN conjunct1]
  note step = T [where p = "[0]" and k = 0 and S = ?M, THEN conjunct2, THEN conjunct1, THEN mp, OF h]
  note pre = T [where p = "[]" and q = "[0, 0]" and S' = ?M,
                THEN conjunct2, THEN conjunct2, THEN mp, OF h']
  have a: "[0] @ [0] = [0::nat, 0]" "[] @ [0, 0] = [0::nat, 0]" by simp_all
  show ?thesis
    apply (intro conjI)
    apply (rule h0)
    apply (rule x0)
    apply (rule h1)
    apply (rule h [unfolded a])
    apply (rule x2)
    apply (rule root)
    apply (rule step [unfolded a])
    apply (rule pre)
    done
qed

text \<open>
  C2. If the directive of a node N excludes all rules (\<^verbatim>\<open>ignore\<close> returns true for it: the
  marker with no rule code), the walk of N is over after that one evaluation: no rule's
  match operation is invoked for N or below it, no issue is recorded from the subtree, and
  no descendant of N is visited, whatever directives the descendants carry.
\<close>

theorem exclude_all_prunes_subtree:
  assumes "snd (fst (ignore gosec n))"
  shows "Walk gosec n = snd (ignore gosec n) \<and>
         issues (Walk gosec n) = issues gosec \<and>
         match_calls (Walk gosec n) = match_calls gosec \<and>
         NumFound (stats (Walk gosec n)) = NumFound (stats gosec) \<and>
         enter_state gosec n (k # p) = None"
proof -
  have v: "Visit gosec (Some n) = (snd (ignore gosec n), False)"
    using assms by (simp add: Visit_Some_unfold)
  have w: "Walk gosec n = snd (ignore gosec n)"
    using v by (cases n) simp
  show ?thesis
    by (simp add: w v ignore_other_fields)
qed

text \<open>The call with the bare marker: its child names G103 only and would be reported by
  G102, and nothing comes out of the subtree.\<close>

theorem exclude_all_prunes_subtree_witness:
  "snd (fst (ignore ex_analyzer ex_silenced)) \<and>
   issues (Walk ex_analyzer ex_silenced) = [] \<and>
   match_calls (Walk ex_analyzer ex_silenced) = [] \<and>
   enter_state ex_analyzer ex_silenced [0] = None"
proof -
  have h: "snd (fst (ignore ex_analyzer ex_silenced))"
    by code_simp
  have i: "issues ex_analyzer = []" "match_calls ex_analyzer = []"
    by (simp_all add: ex_analyzer_def)
  note T = exclude_all_prunes_subtree [OF h, of 0 "[]"]
  show ?thesis
    apply (intro conjI)
    apply (rule h)
    apply (rule T [THEN conjunct2, THEN conjunct1, unfolded i])
    apply (rule T [THEN conjunct2, THEN conjunct2, THEN conjunct1, unfolded i])
    apply (rule T [THEN conjunct2, THEN conjunct2, THEN conjunct2, THEN conjunct2])
    done
qed

text \<open>
  C3. When \<^verbatim>\<open>Visit\<close> dispatches at a node N, the match operations it invokes are those of
  the rules registered for N's type whose identifier is not in the active exclusion set,
  in registration order, and the issues it appends are theirs: a registered rule whose
  identifier is in the active set is not invoked at N and contributes no issue for N.
\<close>

theorem excluded_rule_not_invoked:
  assumes "Visit gosec (Some n) = (g', True)"
  shows "match_calls g' =
           match_calls gosec @
           map (\<lambda>r. (ID r, node_id n))
             (filter (\<lambda>r. ID r \<notin> dom (top_Ignores g')) (RegisteredFor (ruleset gosec) n)) \<and>
         issues g' =
           issues gosec @
           List.map_filter (\<lambda>r. fst (Match r n (ctxt g')))
             (filter (\<lambda>r. ID r \<notin> dom (top_Ignores g')) (RegisteredFor (ruleset gosec) n)) \<and>
         (\<forall>R \<in> set (RegisteredFor (ruleset gosec) n).
            ID R \<in> dom (top_Ignores g') \<longrightarrow>
            (ID R, node_id n) \<notin> set (drop (length (match_calls gosec)) (match_calls g')))"
proof -
  let ?ig = "add_ignored (top_Ignores gosec) (fst (fst (ignore gosec n)))"
  let ?g3 = "(snd (ignore gosec n))\<lparr>ctxt := (ctxt gosec)\<lparr>Ignores := ?ig # Ignores (ctxt gosec),
               Imports := Imports (ctxt gosec) @ [n]\<rparr>\<rparr>"
  from assms have g': "g' = run_rules ?g3 n ?ig (RegisteredFor (ruleset gosec) n)"
    by (simp add: Visit_Some_unfold ignore_other_fields split: if_splits)
  have t: "top_Ignores g' = ?ig"
    using Visit_enter [OF assms] by (simp add: top_Ignores_def)
  have c: "ctxt g' = ctxt ?g3"
    by (simp add: g')
  have calls: "match_calls g' =
           match_calls gosec @
           map (\<lambda>r. (ID r, node_id n))
             (filter (\<lambda>r. ID r \<notin> dom (top_Ignores g')) (RegisteredFor (ruleset gosec) n))"
    unfolding t by (subst g') (simp add: run_rules_calls ignore_other_fields)
  have iss: "issues g' =
           issues gosec @
           List.map_filter (\<lambda>r. fst (Match r n (ctxt g')))
             (filter (\<lambda>r. ID r \<notin> dom (top_Ignores g')) (RegisteredFor (ruleset gosec) n))"
    unfolding t c by (subst g') (simp add: run_rules_issues ignore_other_fields)
  have "\<forall>R \<in> set (RegisteredFor (ruleset gosec) n).
            ID R \<in> dom (top_Ignores g') \<longrightarrow>
            (ID R, node_id n) \<notin> set (drop (length (match_calls gosec)) (match_calls g'))"
    by (subst calls) auto
  with calls iss show ?thesis by blast
qed

text \<open>At the first call of the example G101 and G103 are registered and the directive
  names G101: only G103 is matched.\<close>

theorem excluded_rule_not_invoked_witness:
  "snd (Visit ex_analyzer (Some ex_call)) \<and>
   map ID (RegisteredFor (ruleset ex_analyzer) ex_call) = [''G101'', ''G103''] \<and>
   ''G101'' \<in> dom (top_Ignores (fst (Visit ex_analyzer (Some ex_call)))) \<and>
   match_calls (fst (Visit ex_analyzer (Some ex_call))) = [(''G103'', 1)] \<and>
   map RuleID (issues (fst (Visit ex_analyzer (Some ex_call)))) = [''G103''] \<and>
   (''G101'', 1) \<notin> set (drop (length (match_calls ex_analyzer))
                              (match_calls (fst (Visit ex_analyzer (Some ex_call)))))"
proof -
  have s: "snd (Visit ex_analyzer (Some ex_call))"
    by code_simp
  then have h: "Visit ex_analyzer (Some ex_call) = (fst (Visit ex_analyzer (Some ex_call)), True)"
    by (cases "Visit ex_analyzer (Some ex_call)") simp
  have r: "RegisteredFor (ruleset ex_analyzer) ex_call = [ex_rule ''G101'', ex_rule ''G103'']"
    by (simp add: ex_analyzer_def ex_call_def RegisteredFor_def)
  have d: "top_Ignores (fst (Visit ex_analyzer (Some ex_call))) = [''G101'' \<mapsto> True]"
    by (simp add: ex_defs)
  have i: "issues ex_analyzer = []" "match_calls ex_analyzer = []" "node_id ex_call = 1"
    by (simp_all add: ex_analyzer_def ex_call_def)
  note T = excluded_rule_not_invoked [OF h]
  have c2: "map ID (RegisteredFor (ruleset ex_analyzer) ex_call) = [''G101'', ''G103'']"
    by (simp add: r ex_rule_def)
  have c3: "''G101'' \<in> dom (top_Ignores (fst (Visit ex_analyzer (Some ex_call))))"
    by (simp add: d)
  have c4: "match_calls (fst (Visit ex_analyzer (Some ex_call))) = [(''G103'', 1)]"
    by (subst T [THEN conjunct1]) (simp add: r d i ex_rule_def)
  have c5: "map RuleID (issues (fst (Visit ex_analyzer (Some ex_call)))) = [''G103'']"
    by (subst T [THEN conjunct2, THEN conjunct1])
       (simp add: r d i ex_rule_def List.map_filter_simps)
  have m: "ex_rule ''G101'' \<in> set (RegisteredFor (ruleset ex_analyzer) ex_call)"
    by (simp add: r)
  have i1: "ID (ex_rule ''G101'') = ''G101''"
    by (simp add: ex_rule_def)
  note b = T [THEN conjunct2, THEN conjunct2, THEN bspec, OF m, THEN mp, unfolded i1 i(3), OF c3]
  show ?thesis
    apply (intro conjI)
    apply (rule s)
    apply (rule c2)
    apply (rule c3)
    apply (rule c4)
    apply (rule c5)
    apply (rule b)
    done
qed

subsection \<open>The suppressions counter\<close>

lemma run_rules_NumNosec [simp]:
  "NumNosec (stats (run_rules g n ig rs)) = NumNosec (stats g)"
  by (induction rs arbitrary: g) (simp_all add: Let_def split: prod.splits option.splits)

lemma run_rules_ignoreNosec [simp]:
  "ignoreNosec (run_rules g n ig rs) = ignoreNosec g"
  by (induction rs arbitrary: g) (simp_all add: Let_def split: prod.splits option.splits)

lemma ignore_NumNosec:
  "NumNosec (stats (snd (ignore g n))) = NumNosec (stats g) + (if directive_found g n then 1 else 0)"
  by (simp add: ignore_def directive_found_def ignore_groups_NumNosec split: option.splits)

lemma Visit_Some_NumNosec:
  "NumNosec (stats (fst (Visit g (Some n)))) =
     NumNosec (stats g) + (if directive_found g n then 1 else 0)"
  using ignore_NumNosec [of g n] by (simp add: Visit_Some_unfold)

lemma Visit_None_NumNosec:
  "NumNosec (stats (fst (Visit g None))) = NumNosec (stats g)"
  by (simp add: Visit.simps(1))

lemma Visit_directive_found:
  "directive_found (fst (Visit g x)) = directive_found g"
proof (cases x)
  case None
  then show ?thesis by (auto simp: Visit.simps(1) directive_found_def fun_eq_iff)
next
  case (Some n)
  then show ?thesis
    by (auto simp: Visit_Some_unfold directive_found_def fun_eq_iff ignore_other_fields)
qed

lemma Walk_directive_found:
  "directive_found (Walk g n) = directive_found g"
  "directive_found (Walk_children g ns) = directive_found g"
proof (induction g n and g ns rule: Walk_Walk_children.induct)
  case (1 gosec i t cs)
  obtain g1 v where vis: "Visit gosec (Some (Node i t cs)) = (g1, v)" by (metis prod.exhaust)
  have d1: "directive_found g1 = directive_found gosec"
    using Visit_directive_found [of gosec "Some (Node i t cs)"] vis by simp
  show ?case
  proof (cases v)
    case True
    with vis 1 have "directive_found (Walk_children g1 cs) = directive_found g1" by simp
    with d1 vis True show ?thesis
      using Visit_directive_found [of "Walk_children g1 cs" None] by simp
  next
    case False
    with d1 vis show ?thesis by simp
  qed
next
  case (2 gosec)
  show ?case by simp
next
  case (3 gosec c cs)
  then show ?case by simp
qed

lemma Walk_NumNosec:
  "NumNosec (stats (Walk g n)) =
     NumNosec (stats g) + of_nat (length (filter (directive_found g) (visited g n)))"
  "NumNosec (stats (Walk_children g ns)) =
     NumNosec (stats g) + of_nat (length (filter (directive_found g) (visited_children g ns)))"
proof (induction g n and g ns rule: Walk_Walk_children.induct)
  case (1 gosec i t cs)
  let ?n = "Node i t cs"
  obtain g1 v where vis: "Visit gosec (Some ?n) = (g1, v)" by (metis prod.exhaust)
  have n1: "NumNosec (stats g1) = NumNosec (stats gosec) + (if directive_found gosec ?n then 1 else 0)"
    using Visit_Some_NumNosec [of gosec ?n] vis by simp
  have d1: "directive_found g1 = directive_found gosec"
    using Visit_directive_found [of gosec "Some ?n"] vis by simp
  show ?case
  proof (cases v)
    case True
    with vis 1 have "NumNosec (stats (Walk_children g1 cs)) =
        NumNosec (stats g1) + of_nat (length (filter (directive_found g1) (visited_children g1 cs)))"
      by simp
    then show ?thesis
      using vis True n1 d1 Visit_None_NumNosec [of "Walk_children g1 cs"] by simp
  next
    case False
    with vis n1 show ?thesis by simp
  qed
next
  case (2 gosec)
  show ?case by simp
next
  case (3 gosec c cs)
  then show ?case by (simp add: Walk_directive_found)
qed

text \<open>The nodes \<open>visited\<close> lists are the nodes the walk reaches: those at a path with an
  \<open>enter_state\<close>.\<close>

lemma visited_children_iff:
  "n \<in> set (visited_children g cs) \<longleftrightarrow>
     (\<exists>k < length cs. n \<in> set (visited (Walk_children g (take k cs)) (cs ! k)))"
proof (induction cs arbitrary: g)
  case Nil
  show ?case by simp
next
  case (Cons c cs)
  show ?case
  proof
    assume "n \<in> set (visited_children g (c # cs))"
    then consider "n \<in> set (visited g c)" | "n \<in> set (visited_children (Walk g c) cs)"
      by auto
    then show "\<exists>k < length (c # cs).
        n \<in> set (visited (Walk_children g (take k (c # cs))) ((c # cs) ! k))"
    proof cases
      case 1
      then have "n \<in> set (visited (Walk_children g (take 0 (c # cs))) ((c # cs) ! 0))" by simp
      then show ?thesis by blast
    next
      case 2
      with Cons [of "Walk g c"] obtain k where
        k: "k < length cs" "n \<in> set (visited (Walk_children (Walk g c) (take k cs)) (cs ! k))"
        by blast
      then have "Suc k < length (c # cs) \<and>
          n \<in> set (visited (Walk_children g (take (Suc k) (c # cs))) ((c # cs) ! Suc k))"
        by simp
      then show ?thesis by blast
    qed
  next
    assume "\<exists>k < length (c # cs).
        n \<in> set (visited (Walk_children g (take k (c # cs))) ((c # cs) ! k))"
    then obtain k where k: "k < length (c # cs)"
      "n \<in> set (visited (Walk_children g (take k (c # cs))) ((c # cs) ! k))" by blast
    show "n \<in> set (visited_children g (c # cs))"
    proof (cases k)
      case 0
      with k show ?thesis by simp
    next
      case (Suc k')
      with k have "k' < length cs"
        "n \<in> set (visited (Walk_children (Walk g c) (take k' cs)) (cs ! k'))" by simp_all
      with Cons [of "Walk g c"] have "n \<in> set (visited_children (Walk g c) cs)" by blast
      then show ?thesis by simp
    qed
  qed
qed

lemma visited_unfold:
  "set (visited g n) =
     (case Visit g (Some n) of
        (g1, False) \<Rightarrow> {n}
      | (g1, True) \<Rightarrow> insert n (set (visited_children g1 (children n))))"
  by (cases n) (simp split: prod.splits bool.splits)

lemma visited_root: "n \<in> set (visited g n)"
proof -
  obtain g1 v where "Visit g (Some n) = (g1, v)" by (metis prod.exhaust)
  then show ?thesis by (cases v) (simp_all add: visited_unfold)
qed

lemma reached_is_visited:
  "enter_state g root p = Some s \<Longrightarrow> subtree root p = Some n \<Longrightarrow> n \<in> set (visited g root)"
proof (induction p arbitrary: g root)
  case Nil
  then show ?case using visited_root by simp
next
  case (Cons k p)
  from Cons.prems(1) obtain g1 where
    v: "Visit g (Some root) = (g1, True)" and kl: "k < length (children root)" and
    e: "enter_state (Walk_children g1 (take k (children root))) (children root ! k) p = Some s"
    by (auto split: prod.splits bool.splits if_splits)
  from Cons.prems(2) kl have st: "subtree (children root ! k) p = Some n" by simp
  from Cons.IH [OF e st] kl have "n \<in> set (visited_children g1 (children root))"
    using visited_children_iff by blast
  with v show ?case by (simp add: visited_unfold)
qed

lemma visited_is_reached:
  "n \<in> set (visited g root) \<Longrightarrow> \<exists>p s. enter_state g root p = Some s \<and> subtree root p = Some n"
proof (induction root arbitrary: g n rule: measure_induct_rule [where f = size])
  case (less root)
  obtain g1 v where vis: "Visit g (Some root) = (g1, v)" by (metis prod.exhaust)
  show ?case
  proof (cases "n = root")
    case True
    then have "enter_state g root [] = Some g \<and> subtree root [] = Some n" by simp
    then show ?thesis by blast
  next
    case False
    with less.prems vis have T: "v" and m: "n \<in> set (visited_children g1 (children root))"
      by (auto simp: visited_unfold split: bool.splits)
    from m obtain k where kl: "k < length (children root)" and
      nk: "n \<in> set (visited (Walk_children g1 (take k (children root))) (children root ! k))"
      using visited_children_iff by blast
    obtain i t cs where r: "root = Node i t cs" by (cases root)
    have "children root ! k \<in> set cs" using kl r by simp
    then have "size (children root ! k) \<le> size_list size cs"
      by (rule size_list_estimation') simp
    then have "size (children root ! k) < size root" by (simp add: r)
    from less.IH [OF this nk] obtain p s where
      "enter_state (Walk_children g1 (take k (children root))) (children root ! k) p = Some s"
      "subtree (children root ! k) p = Some n" by blast
    with vis T kl have "enter_state g root (k # p) = Some s \<and> subtree root (k # p) = Some n"
      by simp
    then show ?thesis by blast
  qed
qed

text \<open>
  C6, as the code has it. \<^verbatim>\<open>NumNosec\<close> counts the visited nodes on which a directive is
  found: a visit of a node (\<^verbatim>\<open>ignore\<close>, and \<^verbatim>\<open>Visit\<close> as a whole) adds exactly one when
  nosec handling is on and a comment group of the node contains the marker, whatever rule
  codes the directive lists and whether or not it excludes all rules, and adds nothing
  otherwise; the end of a branch adds nothing; so the walk of a tree adds the number of
  nodes it visits on which a directive is found, the visited nodes being those the walk
  reaches. Further marked groups of the same node are not counted, and nothing is counted
  when nosec handling is off.
\<close>

theorem NumNosec_counts_visited_nodes_with_directive:
  "NumNosec (stats (snd (ignore gosec n))) =
     NumNosec (stats gosec) + (if directive_found gosec n then 1 else 0) \<and>
   NumNosec (stats (fst (Visit gosec (Some n)))) =
     NumNosec (stats gosec) + (if directive_found gosec n then 1 else 0) \<and>
   NumNosec (stats (fst (Visit gosec None))) = NumNosec (stats gosec) \<and>
   NumNosec (stats (Walk gosec root)) =
     NumNosec (stats gosec) +
     of_nat (length (filter (directive_found gosec) (visited gosec root))) \<and>
   (m \<in> set (visited gosec root) \<longleftrightarrow>
      (\<exists>p s. enter_state gosec root p = Some s \<and> subtree root p = Some m))"
proof (intro conjI)
  show "NumNosec (stats (snd (ignore gosec n))) =
     NumNosec (stats gosec) + (if directive_found gosec n then 1 else 0)"
    by (rule ignore_NumNosec)
  show "NumNosec (stats (fst (Visit gosec (Some n)))) =
     NumNosec (stats gosec) + (if directive_found gosec n then 1 else 0)"
    by (rule Visit_Some_NumNosec)
  show "NumNosec (stats (fst (Visit gosec None))) = NumNosec (stats gosec)"
    by (rule Visit_None_NumNosec)
  show "NumNosec (stats (Walk gosec root)) =
     NumNosec (stats gosec) +
     of_nat (length (filter (directive_found gosec) (visited gosec root)))"
    by (rule Walk_NumNosec(1))
  show "m \<in> set (visited gosec root) \<longleftrightarrow>
      (\<exists>p s. enter_state gosec root p = Some s \<and> subtree root p = Some m)"
    using visited_is_reached reached_is_visited by blast
qed

text \<open>The walk of the example visits nodes 0, 1, 2, 3 and 5 (node 4 lies under the bare
  marker); nodes 1, 2 and 3 have a directive, with one code, two codes and none.\<close>

theorem NumNosec_counts_visited_nodes_with_directive_witness:
  "map node_id (visited ex_analyzer ex_tree) = [0, 1, 2, 3, 5] \<and>
   map node_id (filter (directive_found ex_analyzer) (visited ex_analyzer ex_tree)) = [1, 2, 3] \<and>
   NumNosec (stats (Walk ex_analyzer ex_tree)) = 3"
proof -
  have v: "map node_id (visited ex_analyzer ex_tree) = [0, 1, 2, 3, 5]"
    by code_simp
  have f: "map node_id (filter (directive_found ex_analyzer) (visited ex_analyzer ex_tree)) = [1, 2, 3]"
    by code_simp
  have l: "length (filter (directive_found ex_analyzer) (visited ex_analyzer ex_tree)) = 3"
    using f by (metis length_map length_Cons list.size(3) numeral_3_eq_3)
  have z: "NumNosec (stats ex_analyzer) = 0"
    by (simp add: ex_analyzer_def zero_Metrics_def)
  note T = NumNosec_counts_visited_nodes_with_directive
             [where gosec = ex_analyzer and root = ex_tree,
              THEN conjunct2, THEN conjunct2, THEN conjunct2, THEN conjunct1, unfolded l z]
  have n: "NumNosec (stats (Walk ex_analyzer ex_tree)) = 3"
    using T by simp
  from v f n show ?thesis by blast
qed

text \<open>
  C6 as written fails: a visited node with two directive comments is counted once, and
  with nosec handling off the walk visits every node of the example, four of them with a
  directive comment, and counts none.
\<close>

theorem NumNosec_per_directive_comment_counterexample:
  "length (filter (\<lambda>g. Contains g ''#nosec'') [''#nosec G101'', ''#nosec'']) = 2 \<and>
   Comments (ctxt two_directives_analyzer) 0 = Some [''#nosec G101'', ''#nosec''] \<and>
   map node_id (visited two_directives_analyzer (Node 0 ''CallExpr'' [])) = [0] \<and>
   NumNosec (stats two_directives_analyzer) = 0 \<and>
   NumNosec (stats (Walk two_directives_analyzer (Node 0 ''CallExpr'' []))) = 1 \<and>
   map node_id (visited (ex_analyzer\<lparr>ignoreNosec := True\<rparr>) ex_tree) = [0, 1, 2, 3, 4, 5] \<and>
   map (Comments (ctxt (ex_analyzer\<lparr>ignoreNosec := True\<rparr>))) [1, 2, 3, 4] =
     [Some [''#nosec G101''], Some [''#nosec G104 G105''], Some [''#nosec''],
      Some [''#nosec G103'']] \<and>
   NumNosec (stats (Walk (ex_analyzer\<lparr>ignoreNosec := True\<rparr>) ex_tree)) = 0"
proof -
  have a: "length (filter (\<lambda>g. Contains g ''#nosec'') [''#nosec G101'', ''#nosec'']) = 2"
    by code_simp
  have b: "Comments (ctxt two_directives_analyzer) 0 = Some [''#nosec G101'', ''#nosec'']"
    by (simp add: two_directives_analyzer_def empty_Context_def)
  have c: "map node_id (visited two_directives_analyzer (Node 0 ''CallExpr'' [])) = [0]"
    by code_simp
  have d: "NumNosec (stats two_directives_analyzer) = 0"
    by code_simp
  have e: "NumNosec (stats (Walk two_directives_analyzer (Node 0 ''CallExpr'' []))) = 1"
    by code_simp
  have f: "map node_id (visited (ex_analyzer\<lparr>ignoreNosec := True\<rparr>) ex_tree) = [0, 1, 2, 3, 4, 5]"
    by code_simp
  have g: "NumNosec (stats (Walk (ex_analyzer\<lparr>ignoreNosec := True\<rparr>) ex_tree)) = 0"
    by code_simp
  have h: "map (Comments (ctxt (ex_analyzer\<lparr>ignoreNosec := True\<rparr>))) [1, 2, 3, 4] =
     [Some [''#nosec G101''], Some [''#nosec G104 G105''], Some [''#nosec''],
      Some [''#nosec G103'']]"
    by (simp add: ex_analyzer_def empty_Context_def ex_comments_def)
  from a b c d e f g h show ?thesis by blast
qed

subsection \<open>The directive\<close>

lemma Contains_iff: "Contains s sub \<longleftrightarrow> (\<exists>pre post. s = pre @ sub @ post)"
proof (induction s)
  case Nil
  show ?case by simp
next
  case (Cons c cs)
  show ?case
  proof
    assume "Contains (c # cs) sub"
    then consider "take (length sub) (c # cs) = sub" | "Contains cs sub" by auto
    then show "\<exists>pre post. c # cs = pre @ sub @ post"
    proof cases
      case 1
      then have "c # cs = [] @ sub @ drop (length sub) (c # cs)"
        by (metis append_Nil append_take_drop_id)
      then show ?thesis by blast
    next
      case 2
      with Cons obtain pre post where "cs = pre @ sub @ post" by blast
      then have "c # cs = (c # pre) @ sub @ post" by simp
      then show ?thesis by blast
    qed
  next
    assume "\<exists>pre post. c # cs = pre @ sub @ post"
    then obtain pre post where e: "c # cs = pre @ sub @ post" by blast
    show "Contains (c # cs) sub"
    proof (cases pre)
      case Nil
      with e have "take (length sub) (c # cs) = sub" by simp
      then show ?thesis by simp
    next
      case (Cons a pre')
      with e have "cs = pre' @ sub @ post" by simp
      with Cons.IH have "Contains cs sub" by blast
      then show ?thesis by simp
    qed
  qed
qed

lemma Contains_Cons: "Contains cs sub \<Longrightarrow> Contains (c # cs) sub"
  by simp

lemma Contains_drop: "Contains (drop k cs) sub \<Longrightarrow> Contains cs sub"
proof -
  assume "Contains (drop k cs) sub"
  then obtain pre post where "drop k cs = pre @ sub @ post" by (auto simp: Contains_iff)
  then have "cs = (take k cs @ pre) @ sub @ post"
    by (metis append.assoc append_take_drop_id)
  then show ?thesis unfolding Contains_iff by blast
qed

lemma rule_code_iff:
  "rule_code c \<longleftrightarrow>
     (\<exists>d1 d2 d3. c = [CHR ''G'', d1, d2, d3] \<and> is_digit d1 \<and> is_digit d2 \<and> is_digit d3)"
proof
  assume r: "rule_code c"
  then obtain g d1 d2 d3 where "c = [g, d1, d2, d3]"
    by (cases c; simp add: rule_code_def; cases "tl c"; simp; cases "tl (tl c)"; simp;
        cases "tl (tl (tl c))"; simp)
  with r show "\<exists>d1 d2 d3. c = [CHR ''G'', d1, d2, d3] \<and> is_digit d1 \<and> is_digit d2 \<and> is_digit d3"
    by (simp add: rule_code_def)
next
  assume "\<exists>d1 d2 d3. c = [CHR ''G'', d1, d2, d3] \<and> is_digit d1 \<and> is_digit d2 \<and> is_digit d3"
  then show "rule_code c" by (auto simp: rule_code_def)
qed

lemma take3: "3 \<le> length cs \<Longrightarrow> \<exists>d1 d2 d3. take 3 cs = [d1, d2, d3]"
  by (cases cs; simp; cases "tl cs"; simp; cases "tl (tl cs)"; simp add: numeral_3_eq_3)

lemma FindAll_elems:
  "c \<in> set (FindAllStringSubmatch s) \<Longrightarrow> rule_code c \<and> Contains s c"
proof (induction s rule: FindAllStringSubmatch.induct)
  case 1
  then show ?case by simp
next
  case (2 x cs)
  show ?case
  proof (cases "x = CHR ''G'' \<and> 3 \<le> length cs \<and> list_all is_digit (take 3 cs)")
    case True
    then obtain d1 d2 d3 where t: "take 3 cs = [d1, d2, d3]" using take3 by blast
    from 2(3) True consider "c = x # take 3 cs" | "c \<in> set (FindAllStringSubmatch (drop 3 cs))"
      by auto
    then show ?thesis
    proof cases
      case 1
      have "rule_code c" using True t 1 by (auto simp: rule_code_iff)
      moreover have "take (length c) (x # cs) = c" using 1 t True by (simp add: numeral_3_eq_3)
      ultimately show ?thesis by simp
    next
      case 2
      with "2.IH"(1) True have "rule_code c \<and> Contains (drop 3 cs) c" by blast
      then show ?thesis using Contains_drop by auto
    qed
  next
    case False
    with 2(3) have "c \<in> set (FindAllStringSubmatch cs)" by auto
    with "2.IH"(2) False have "rule_code c \<and> Contains cs c" by blast
    then show ?thesis by auto
  qed
qed

lemma FindAll_empty:
  "FindAllStringSubmatch s = [] \<Longrightarrow> rule_code c \<Longrightarrow> \<not> Contains s c"
proof (induction s rule: FindAllStringSubmatch.induct)
  case 1
  then show ?case by (auto simp: rule_code_iff)
next
  case (2 x cs)
  from 2(3) have F: "\<not> (x = CHR ''G'' \<and> 3 \<le> length cs \<and> list_all is_digit (take 3 cs))"
    by (auto split: if_splits)
  with 2(3) have "FindAllStringSubmatch cs = []" by simp
  with "2.IH"(2) F 2(4) have n: "\<not> Contains cs c" by blast
  have "take (length c) (x # cs) \<noteq> c"
  proof
    assume a: "take (length c) (x # cs) = c"
    from 2(4) obtain d1 d2 d3 where c: "c = [CHR ''G'', d1, d2, d3]"
      and d: "is_digit d1" "is_digit d2" "is_digit d3"
      by (auto simp: rule_code_iff)
    from a c have "x = CHR ''G''" and t: "take 3 cs = [d1, d2, d3]"
      by (simp_all add: numeral_3_eq_3)
    moreover from t have "3 \<le> length cs"
      by (metis length_take min.cobounded1 length_Cons list.size(3) numeral_3_eq_3)
    ultimately show False using F d by simp
  qed
  with n show ?case by simp
qed


text \<open>
  C4, as the code has it. With nosec handling on, the first comment group of the node
  whose text contains the marker \<^verbatim>\<open>#nosec\<close> decides: \<^verbatim>\<open>ignore\<close> yields the occurrences in
  that text (anywhere in it, leftmost first and not overlapping) of the letter G followed
  by three digits as the explicit exclusions, with excludeAll false when there is at
  least one and true when there is none. If nosec handling is off, or the node has no
  comment, or no group contains the marker, it yields no exclusion and excludeAll false.
  Every code yielded is a G followed by three digits that occurs in the text, and none is
  yielded exactly when the text has no such occurrence.
\<close>

theorem ignore_yields_G_codes_of_first_directive:
  "(\<not> ignoreNosec gosec \<and> Comments (ctxt gosec) (node_id n) = Some (pre @ g # post) \<and>
    \<not> list_ex (\<lambda>x. Contains x ''#nosec'') pre \<and> Contains g ''#nosec'' \<longrightarrow>
      fst (ignore gosec n) = (FindAllStringSubmatch g, FindAllStringSubmatch g = [])) \<and>
   (ignoreNosec gosec \<or> Comments (ctxt gosec) (node_id n) = None \<or>
    (\<exists>groups. Comments (ctxt gosec) (node_id n) = Some groups \<and>
       \<not> list_ex (\<lambda>x. Contains x ''#nosec'') groups) \<longrightarrow>
      fst (ignore gosec n) = ([], False)) \<and>
   (\<forall>c \<in> set (FindAllStringSubmatch g). rule_code c \<and> Contains g c) \<and>
   (FindAllStringSubmatch g = [] \<longleftrightarrow> (\<forall>c. rule_code c \<longrightarrow> \<not> Contains g c))"
proof (intro conjI)
  show "\<not> ignoreNosec gosec \<and> Comments (ctxt gosec) (node_id n) = Some (pre @ g # post) \<and>
    \<not> list_ex (\<lambda>x. Contains x ''#nosec'') pre \<and> Contains g ''#nosec'' \<longrightarrow>
      fst (ignore gosec n) = (FindAllStringSubmatch g, FindAllStringSubmatch g = [])"
    by (simp add: ignore_def ignore_groups_result)
  show "ignoreNosec gosec \<or> Comments (ctxt gosec) (node_id n) = None \<or>
    (\<exists>groups. Comments (ctxt gosec) (node_id n) = Some groups \<and>
       \<not> list_ex (\<lambda>x. Contains x ''#nosec'') groups) \<longrightarrow>
      fst (ignore gosec n) = ([], False)"
    by (auto simp: ignore_def ignore_groups_none split: option.splits)
  show "\<forall>c \<in> set (FindAllStringSubmatch g). rule_code c \<and> Contains g c"
    using FindAll_elems by blast
  show "FindAllStringSubmatch g = [] \<longleftrightarrow> (\<forall>c. rule_code c \<longrightarrow> \<not> Contains g c)"
  proof
    assume "FindAllStringSubmatch g = []"
    then show "\<forall>c. rule_code c \<longrightarrow> \<not> Contains g c" using FindAll_empty by blast
  next
    assume a: "\<forall>c. rule_code c \<longrightarrow> \<not> Contains g c"
    show "FindAllStringSubmatch g = []"
    proof (rule ccontr)
      assume "FindAllStringSubmatch g \<noteq> []"
      then obtain c where "c \<in> set (FindAllStringSubmatch g)"
        by (cases "FindAllStringSubmatch g") auto
      with FindAll_elems a show False by blast
    qed
  qed
qed

text \<open>The directive of the example that names G104 and G105, and the node with no
  comment.\<close>

theorem ignore_yields_G_codes_of_first_directive_witness:
  "fst (ignore ex_analyzer (Node 2 ''BinaryExpr'' [])) = ([''G104'', ''G105''], False) \<and>
   fst (ignore ex_analyzer (Node 5 ''BinaryExpr'' [])) = ([], False) \<and>
   rule_code ''G104'' \<and> Contains ''#nosec G104 G105'' ''G104''"
proof -
  have c: "\<not> ignoreNosec ex_analyzer \<and>
      Comments (ctxt ex_analyzer) (node_id (Node 2 ''BinaryExpr'' [])) =
        Some ([] @ ''#nosec G104 G105'' # []) \<and>
      \<not> list_ex (\<lambda>x. Contains x ''#nosec'') [] \<and> Contains ''#nosec G104 G105'' ''#nosec''"
    by (simp add: ex_analyzer_def empty_Context_def ex_comments_def)
  have n: "ignoreNosec ex_analyzer \<or>
      Comments (ctxt ex_analyzer) (node_id (Node 5 ''BinaryExpr'' [])) = None \<or>
      (\<exists>groups. Comments (ctxt ex_analyzer) (node_id (Node 5 ''BinaryExpr'' [])) = Some groups \<and>
         \<not> list_ex (\<lambda>x. Contains x ''#nosec'') groups)"
    by (simp add: ex_analyzer_def empty_Context_def ex_comments_def)
  have f: "FindAllStringSubmatch ''#nosec G104 G105'' = [''G104'', ''G105'']"
    by code_simp
  note T = ignore_yields_G_codes_of_first_directive
             [where gosec = ex_analyzer and g = "''#nosec G104 G105''"]
  note T1 = T [where n = "Node 2 ''BinaryExpr'' []" and pre = "[]" and post = "[]",
               THEN conjunct1, THEN mp, OF c]
  note T2 = T [where n = "Node 5 ''BinaryExpr'' []", THEN conjunct2, THEN conjunct1, THEN mp, OF n]
  note T3 = T [where n = "Node 5 ''BinaryExpr'' []", THEN conjunct2, THEN conjunct2, THEN conjunct1]
  have "''G104'' \<in> set (FindAllStringSubmatch ''#nosec G104 G105'')"
    unfolding f by simp
  with T3 have r3: "rule_code ''G104'' \<and> Contains ''#nosec G104 G105'' ''G104''" by blast
  have r1: "fst (ignore ex_analyzer (Node 2 ''BinaryExpr'' [])) = ([''G104'', ''G105''], False)"
    using T1 [unfolded f] by simp
  show ?thesis
    apply (intro conjI)
    apply (rule r1)
    apply (rule T2)
    apply (rule r3 [THEN conjunct1])
    apply (rule r3 [THEN conjunct2])
    done
qed

text \<open>
  C4 as written fails: a code with another capital letter is not an exclusion (the
  directive then excludes all rules), a code before the marker is one, and of four digits
  the first three make a code.
\<close>

theorem directive_codes_counterexample:
  "fst (ignore (directive_analyzer ''#nosec A123'') (Node 0 ''CallExpr'' [])) = ([], True) \<and>
   fst (ignore (directive_analyzer ''#nosec A123'') (Node 0 ''CallExpr'' [])) \<noteq> ([''A123''], False) \<and>
   fst (ignore (directive_analyzer ''G101 #nosec'') (Node 0 ''CallExpr'' [])) = ([''G101''], False) \<and>
   fst (ignore (directive_analyzer ''#nosec G1011'') (Node 0 ''CallExpr'' [])) = ([''G101''], False)"
  by code_simp

subsection \<open>Loading rules\<close>

lemma Register_lookup:
  "RegisteredFor (Register r rule nodes) n =
     RegisteredFor r n @ map (\<lambda>t. rule) (filter (\<lambda>t. t = node_type n) nodes)"
  by (induction nodes arbitrary: r) (auto simp: RegisteredFor_def split: option.splits)

lemma LoadRules_range_config [simp]:
  "config (LoadRules_range g defs keys) = config g"
  by (induction keys arbitrary: g) (simp_all split: option.splits prod.splits)

lemma LoadRules_range_other_fields [simp]:
  "ignoreNosec (LoadRules_range g defs keys) = ignoreNosec g"
  "ctxt (LoadRules_range g defs keys) = ctxt g"
  "logger (LoadRules_range g defs keys) = logger g"
  "issues (LoadRules_range g defs keys) = issues g"
  "stats (LoadRules_range g defs keys) = stats g"
  "errors (LoadRules_range g defs keys) = errors g"
  by (induction keys arbitrary: g; simp split: option.splits prod.splits)+

lemma LoadRules_range_registered:
  "RegisteredFor (ruleset (LoadRules_range g defs keys)) n =
     RegisteredFor (ruleset g) n @
     concat (map (\<lambda>k. case defs k of
                         None \<Rightarrow> []
                       | Some def \<Rightarrow>
                           map (\<lambda>t. fst (def k (config g)))
                             (filter (\<lambda>t. t = node_type n) (snd (def k (config g)))))
               keys)"
  by (induction keys arbitrary: g)
     (simp_all add: Register_lookup split: option.splits prod.splits cong: option.case_cong)

text \<open>
  C5, as the code has it. \<^verbatim>\<open>LoadRules\<close> registers the rules in the order in which the
  rule-definition table is iterated: for every node type, the rules registered for it
  after \<^verbatim>\<open>LoadRules\<close> are those registered before, followed by the rules built from the
  table's entries that list that type, in iteration order. Two runs dispatch in the same
  order when their tables are iterated in the same order.
\<close>

theorem LoadRules_registers_in_iteration_order:
  "RegisteredFor (ruleset (LoadRules gosec keys ruleDefinitions)) n =
     RegisteredFor (ruleset gosec) n @
     concat (map (\<lambda>k. case ruleDefinitions k of
                         None \<Rightarrow> []
                       | Some def \<Rightarrow>
                           map (\<lambda>t. fst (def k (config gosec)))
                             (filter (\<lambda>t. t = node_type n) (snd (def k (config gosec)))))
               keys)"
  unfolding LoadRules_def by (rule LoadRules_range_registered)

text \<open>Iterating G102 before G101 registers them in that order.\<close>

theorem LoadRules_registers_in_iteration_order_witness:
  "map ID (RegisteredFor (ruleset (LoadRules new_analyzer [''G102'', ''G101''] ex_definitions))
             (Node 0 ''CallExpr'' [])) = [''G102'', ''G101'']"
proof -
  have r: "RegisteredFor (ruleset new_analyzer) (Node 0 ''CallExpr'' []) = []"
    by (simp add: new_analyzer_def NewAnalyzer_def RegisteredFor_def)
  show ?thesis
    by (subst LoadRules_registers_in_iteration_order)
       (simp add: r ex_definitions_def ex_builder_def ex_rule_def)
qed

text \<open>
  C5 as written fails: both orders are iteration orders of the same table of two
  rules for call expressions; one registers G102 before G101, which is not sorted, and
  the two runs report their issues for the same call in different orders.
\<close>

theorem LoadRules_order_counterexample:
  "iteration_order [''G102'', ''G101''] ex_definitions \<and>
   iteration_order [''G101'', ''G102''] ex_definitions \<and>
   map ID (RegisteredFor (ruleset (LoadRules new_analyzer [''G102'', ''G101''] ex_definitions))
             (Node 0 ''CallExpr'' [])) = [''G102'', ''G101''] \<and>
   \<not> sorted [''G102'', ''G101''] \<and>
   map ID (RegisteredFor (ruleset (LoadRules new_analyzer [''G101'', ''G102''] ex_definitions))
             (Node 0 ''CallExpr'' [])) = [''G101'', ''G102''] \<and>
   map RuleID (issues (Walk (LoadRules new_analyzer [''G102'', ''G101''] ex_definitions)
                         (Node 0 ''CallExpr'' []))) = [''G102'', ''G101''] \<and>
   map RuleID (issues (Walk (LoadRules new_analyzer [''G101'', ''G102''] ex_definitions)
                         (Node 0 ''CallExpr'' []))) = [''G101'', ''G102'']"
proof -
  have o: "iteration_order [''G102'', ''G101''] ex_definitions"
    "iteration_order [''G101'', ''G102''] ex_definitions"
    by (auto simp: iteration_order_def ex_definitions_def)
  have s: "\<not> sorted [''G102'', ''G101'']"
    by simp
  have a: "map ID (RegisteredFor (ruleset (LoadRules new_analyzer [''G102'', ''G101''] ex_definitions))
             (Node 0 ''CallExpr'' [])) = [''G102'', ''G101'']"
    "map ID (RegisteredFor (ruleset (LoadRules new_analyzer [''G101'', ''G102''] ex_definitions))
             (Node 0 ''CallExpr'' [])) = [''G101'', ''G102'']"
    "map RuleID (issues (Walk (LoadRules new_analyzer [''G102'', ''G101''] ex_definitions)
                         (Node 0 ''CallExpr'' []))) = [''G102'', ''G101'']"
    "map RuleID (issues (Walk (LoadRules new_analyzer [''G101'', ''G102''] ex_definitions)
                         (Node 0 ''CallExpr'' []))) = [''G101'', ''G102'']"
    by code_simp+
  from o s a show ?thesis by blast
qed

subsection \<open>Process: loading\<close>

lemma load_pkgs_append:
  "load_pkgs L g pk (pre @ rest) =
     (case load_pkgs L g pk pre of
        (Inl err, g1) \<Rightarrow> (Inl err, g1)
      | (Inr loaded, g1) \<Rightarrow> load_pkgs L g1 loaded rest)"
  by (induction pre arbitrary: g pk)
     (simp_all add: Let_def split: prod.splits option.splits sum.splits)

lemma load_pkgs_other_fields [simp]:
  "issues (snd (load_pkgs L g pk ps)) = issues g"
  "stats (snd (load_pkgs L g pk ps)) = stats g"
  "errors (snd (load_pkgs L g pk ps)) = errors g"
  "ctxt (snd (load_pkgs L g pk ps)) = ctxt g"
  "match_calls (snd (load_pkgs L g pk ps)) = match_calls g"
  "ruleset (snd (load_pkgs L g pk ps)) = ruleset g"
  by (induction ps arbitrary: g pk;
      simp add: Let_def split: prod.splits option.splits sum.splits)+

lemma load_pkgs_error_origin:
  "fst (load_pkgs L g pk ps) = Inl err \<Longrightarrow>
   \<exists>q \<in> set ps. snd (GetPkgAbsPath L q) = None \<and> load_one L q = Inl err"
  by (induction ps arbitrary: g pk)
     (auto simp: Let_def split: prod.splits option.splits sum.splits)

lemma load_pkgs_ok:
  assumes "\<forall>q \<in> set ps. snd (GetPkgAbsPath L q) \<noteq> None \<or>
             (\<exists>l. load_one L q = Inr l \<and> (\<forall>p \<in> set l. PkgErrors p = []))"
      and "\<forall>p \<in> set pk. PkgErrors p = []"
  shows "\<exists>pkgs. fst (load_pkgs L g pk ps) = Inr pkgs \<and> (\<forall>p \<in> set pkgs. PkgErrors p = [])"
  using assms
proof (induction ps arbitrary: g pk)
  case Nil
  then show ?case by simp
next
  case (Cons q ps)
  obtain abspath e where ab: "GetPkgAbsPath L q = (abspath, e)" by (metis prod.exhaust)
  show ?case
  proof (cases e)
    case (Some err)
    with ab Cons show ?thesis by simp
  next
    case None
    with ab Cons.prems(1) obtain l where
      l: "load_one L q = Inr l" "\<forall>p \<in> set l. PkgErrors p = []" by auto
    with Cons.prems(2) have "\<forall>p \<in> set (pk @ l). PkgErrors p = []" by auto
    with Cons.IH [of "pk @ l"] Cons.prems(1) ab None l show ?thesis by (simp add: Let_def)
  qed
qed

lemma record_pkgs_errors_none:
  "\<forall>p \<in> set pkgs. PkgErrors p = [] \<Longrightarrow> record_pkgs_errors g pkgs = (None, g)"
  by (induction pkgs) simp_all

lemma Process_no_error:
  assumes "\<forall>q \<in> set paths. snd (GetPkgAbsPath L q) \<noteq> None \<or>
             (\<exists>l. load_one L q = Inr l \<and> (\<forall>p \<in> set l. PkgErrors p = []))"
  shows "fst (Process L g tags paths) = None"
proof -
  from load_pkgs_ok [OF assms, of "[]" g] obtain pkgs where
    p: "fst (load_pkgs L g [] paths) = Inr pkgs" "\<forall>p \<in> set pkgs. PkgErrors p = []"
    by auto
  obtain g1 where g1: "load_pkgs L g [] paths = (Inr pkgs, g1)"
    using p(1) by (cases "load_pkgs L g [] paths") simp
  show ?thesis
    by (simp add: Process_def g1 record_pkgs_errors_none [OF p(2)])
qed

lemma Process_loader_error:
  assumes "fst (load_pkgs L g [] pre) = Inr loaded"
      and "snd (GetPkgAbsPath L p) = None"
      and "load_one L p = Inl err"
  shows "fst (Process L g tags (pre @ p # rest)) = Some err"
    and "issues (snd (Process L g tags (pre @ p # rest))) = issues g"
    and "stats (snd (Process L g tags (pre @ p # rest))) = stats g"
    and "errors (snd (Process L g tags (pre @ p # rest))) = errors g"
    and "match_calls (snd (Process L g tags (pre @ p # rest))) = match_calls g"
proof -
  obtain g1 where g1: "load_pkgs L g [] pre = (Inr loaded, g1)"
    using assms(1) by (cases "load_pkgs L g [] pre") simp
  obtain abspath where ab: "GetPkgAbsPath L p = (abspath, None)"
    using assms(2) by (cases "GetPkgAbsPath L p") simp
  have f: "issues g1 = issues g" "stats g1 = stats g" "errors g1 = errors g"
    "match_calls g1 = match_calls g"
    using load_pkgs_other_fields [of L g "[]" pre] g1 by simp_all
  have "load_pkgs L g [] (pre @ p # rest) =
          (Inl err, g1\<lparr>logger := logger g1 @ [ImportDirectory abspath]\<rparr>)"
    by (simp add: load_pkgs_append g1 ab assms(3) Let_def)
  then have P: "Process L g tags (pre @ p # rest) =
          (Some err, g1\<lparr>logger := logger g1 @ [ImportDirectory abspath]\<rparr>)"
    by (simp add: Process_def)
  show "fst (Process L g tags (pre @ p # rest)) = Some err"
    and "issues (snd (Process L g tags (pre @ p # rest))) = issues g"
    and "stats (snd (Process L g tags (pre @ p # rest))) = stats g"
    and "errors (snd (Process L g tags (pre @ p # rest))) = errors g"
    and "match_calls (snd (Process L g tags (pre @ p # rest))) = match_calls g"
    by (simp_all add: P f)
qed

text \<open>
  C7. A path that does not exist (\<^verbatim>\<open>GetPkgAbsPath\<close> returns an error) is logged as skipped
  and the loop goes on with the remaining paths and the packages loaded so far; from the
  head of the list, \<^verbatim>\<open>Process\<close> does what it does on the remaining paths with that one
  line more in the log. \<^verbatim>\<open>Process\<close> returns no error when every path is either missing
  or loads into packages without errors, and an error of the loading loop is always the
  loader's error for a path that exists. When the paths before \<open>p\<close> load, \<open>p\<close> exists
  and \<^verbatim>\<open>ImportDir\<close> or \<^verbatim>\<open>packages.Load\<close> fails for it, \<^verbatim>\<open>Process\<close> returns that error
  and nothing has been scanned: issues, metrics, error map and match calls are as before.
\<close>

theorem Process_skips_missing_and_returns_loader_error:
  "(snd (GetPkgAbsPath L p) \<noteq> None \<longrightarrow>
      load_pkgs L gosec pkgs (pre @ p # rest) =
        (case load_pkgs L gosec pkgs pre of
           (Inl err, g1) \<Rightarrow> (Inl err, g1)
         | (Inr loaded, g1) \<Rightarrow>
             load_pkgs L (g1\<lparr>logger := logger g1 @ [Skipping (fst (GetPkgAbsPath L p))]\<rparr>)
               loaded rest) \<and>
      Process L gosec tags (p # rest) =
        Process L (gosec\<lparr>logger := logger gosec @ [Skipping (fst (GetPkgAbsPath L p))]\<rparr>)
          tags rest) \<and>
   ((\<forall>q \<in> set paths. snd (GetPkgAbsPath L q) \<noteq> None \<or>
        (\<exists>l. load_one L q = Inr l \<and> (\<forall>pkg \<in> set l. PkgErrors pkg = []))) \<longrightarrow>
      fst (Process L gosec tags paths) = None) \<and>
   (fst (load_pkgs L gosec pkgs paths) = Inl e \<longrightarrow>
      (\<exists>q \<in> set paths. snd (GetPkgAbsPath L q) = None \<and> load_one L q = Inl e)) \<and>
   (fst (load_pkgs L gosec [] pre) = Inr loaded \<and> snd (GetPkgAbsPath L p) = None \<and>
    load_one L p = Inl err \<longrightarrow>
      fst (Process L gosec tags (pre @ p # rest)) = Some err \<and>
      issues (snd (Process L gosec tags (pre @ p # rest))) = issues gosec \<and>
      stats (snd (Process L gosec tags (pre @ p # rest))) = stats gosec \<and>
      errors (snd (Process L gosec tags (pre @ p # rest))) = errors gosec \<and>
      match_calls (snd (Process L gosec tags (pre @ p # rest))) = match_calls gosec)"
proof (intro conjI impI)
  assume m: "snd (GetPkgAbsPath L p) \<noteq> None"
  then obtain abspath e where ab: "GetPkgAbsPath L p = (abspath, Some e)"
    by (cases "GetPkgAbsPath L p") auto
  show "load_pkgs L gosec pkgs (pre @ p # rest) =
        (case load_pkgs L gosec pkgs pre of
           (Inl err, g1) \<Rightarrow> (Inl err, g1)
         | (Inr loaded, g1) \<Rightarrow>
             load_pkgs L (g1\<lparr>logger := logger g1 @ [Skipping (fst (GetPkgAbsPath L p))]\<rparr>)
               loaded rest)"
    by (simp add: load_pkgs_append ab split: prod.splits sum.splits)
  show "Process L gosec tags (p # rest) =
        Process L (gosec\<lparr>logger := logger gosec @ [Skipping (fst (GetPkgAbsPath L p))]\<rparr>)
          tags rest"
    by (simp add: Process_def ab)
next
  assume "\<forall>q \<in> set paths. snd (GetPkgAbsPath L q) \<noteq> None \<or>
        (\<exists>l. load_one L q = Inr l \<and> (\<forall>pkg \<in> set l. PkgErrors pkg = []))"
  then show "fst (Process L gosec tags paths) = None"
    by (rule Process_no_error)
next
  assume "fst (load_pkgs L gosec pkgs paths) = Inl e"
  then show "\<exists>q \<in> set paths. snd (GetPkgAbsPath L q) = None \<and> load_one L q = Inl e"
    by (rule load_pkgs_error_origin)
next
  assume a: "fst (load_pkgs L gosec [] pre) = Inr loaded \<and> snd (GetPkgAbsPath L p) = None \<and>
    load_one L p = Inl err"
  then have a1: "fst (load_pkgs L gosec [] pre) = Inr loaded"
    and a2: "snd (GetPkgAbsPath L p) = None" and a3: "load_one L p = Inl err"
    by simp_all
  note R = Process_loader_error [OF a1 a2 a3]
  show "fst (Process L gosec tags (pre @ p # rest)) = Some err" by (rule R(1))
  show "issues (snd (Process L gosec tags (pre @ p # rest))) = issues gosec" by (rule R(2))
  show "stats (snd (Process L gosec tags (pre @ p # rest))) = stats gosec" by (rule R(3))
  show "errors (snd (Process L gosec tags (pre @ p # rest))) = errors gosec" by (rule R(4))
  show "match_calls (snd (Process L gosec tags (pre @ p # rest))) = match_calls gosec"
    by (rule R(5))
qed


text \<open>A missing and a valid path: no error, the skip is logged, the valid file is
  scanned. A valid, a broken and a valid path: the loader's error, and no issue.\<close>

theorem Process_skips_missing_and_returns_loader_error_witness:
  "Process ex_loader ex_analyzer [] [''./missing'', ''./valid''] =
     Process ex_loader (ex_analyzer\<lparr>logger := logger ex_analyzer @ [Skipping []]\<rparr>) []
       [''./valid''] \<and>
   fst (Process ex_loader ex_analyzer [] [''./missing'', ''./valid'']) = None \<and>
   logger (snd (Process ex_loader ex_analyzer [] [''./missing'', ''./valid''])) =
     [Skipping [], ImportDirectory ''/src/./valid'', CheckingPackage ''main'',
      CheckingFile ''main.go''] \<and>
   NumFiles (stats (snd (Process ex_loader ex_analyzer [] [''./missing'', ''./valid'']))) = 1 \<and>
   (\<exists>q \<in> set [''./valid'', ''./broken'', ''./valid''].
      snd (GetPkgAbsPath ex_loader q) = None \<and>
      load_one ex_loader q = Inl (LoaderError ''no buildable Go source files'')) \<and>
   fst (Process ex_loader ex_analyzer [] [''./valid'', ''./broken'', ''./valid'']) =
     Some (LoaderError ''no buildable Go source files'') \<and>
   issues (snd (Process ex_loader ex_analyzer [] [''./valid'', ''./broken'', ''./valid''])) = []"
proof -
  note T = Process_skips_missing_and_returns_loader_error
             [where L = ex_loader and gosec = ex_analyzer and tags = "[]"]
  have mi: "snd (GetPkgAbsPath ex_loader ''./missing'') \<noteq> None"
    "fst (GetPkgAbsPath ex_loader ''./missing'') = []"
    by (simp_all add: ex_loader_def)
  note c0 = T [where p = "''./missing''" and rest = "[''./valid'']",
               THEN conjunct1, THEN mp, OF mi(1), THEN conjunct2, unfolded mi(2)]
  have ok: "\<forall>q \<in> set [''./missing'', ''./valid''].
              snd (GetPkgAbsPath ex_loader q) \<noteq> None \<or>
              (\<exists>l. load_one ex_loader q = Inr l \<and> (\<forall>pkg \<in> set l. PkgErrors pkg = []))"
    by (simp add: ex_loader_def load_one_def ex_package_def)
  note c1 = T [where paths = "[''./missing'', ''./valid'']",
               THEN conjunct2, THEN conjunct1, THEN mp, OF ok]
  have le: "fst (load_pkgs ex_loader ex_analyzer [] [''./valid'', ''./broken'', ''./valid'']) =
              Inl (LoaderError ''no buildable Go source files'')"
    by (simp add: ex_loader_def load_one_def Let_def)
  note c5 = T [where pkgs = "[]" and paths = "[''./valid'', ''./broken'', ''./valid'']",
               THEN conjunct2, THEN conjunct2, THEN conjunct1, THEN mp, OF le]
  have bad: "fst (load_pkgs ex_loader ex_analyzer [] [''./valid'']) = Inr [ex_package] \<and>
             snd (GetPkgAbsPath ex_loader ''./broken'') = None \<and>
             load_one ex_loader ''./broken'' = Inl (LoaderError ''no buildable Go source files'')"
    by (simp add: ex_loader_def load_one_def Let_def)
  note c4 = T [where pre = "[''./valid'']" and p = "''./broken''" and rest = "[''./valid'']"
                 and loaded = "[ex_package]"
                 and err = "LoaderError ''no buildable Go source files''",
               THEN conjunct2, THEN conjunct2, THEN conjunct2, THEN mp, OF bad]
  have a: "[''./valid''] @ ''./broken'' # [''./valid''] = [''./valid'', ''./broken'', ''./valid'']"
    by simp
  have i: "issues ex_analyzer = []" by (simp add: ex_analyzer_def)
  have c2: "logger (snd (Process ex_loader ex_analyzer [] [''./missing'', ''./valid''])) =
     [Skipping [], ImportDirectory ''/src/./valid'', CheckingPackage ''main'',
      CheckingFile ''main.go'']"
    by code_simp
  have c3: "NumFiles (stats (snd (Process ex_loader ex_analyzer [] [''./missing'', ''./valid'']))) = 1"
    by code_simp
  show ?thesis
    apply (intro conjI)
    apply (rule c0)
    apply (rule c1)
    apply (rule c2)
    apply (rule c3)
    apply (rule c5)
    apply (rule c4 [unfolded a, THEN conjunct1])
    apply (rule c4 [unfolded a i, THEN conjunct2, THEN conjunct1])
    done
qed

subsection \<open>Process: the error map\<close>

lemma check_file_errors [simp]: "errors (check_file g pkg f) = errors g"
  by (simp add: check_file_def Let_def Walk_errors)

lemma check_files_errors [simp]: "errors (check_files g pkg fs) = errors g"
  by (induction fs arbitrary: g) simp_all

lemma check_pkgs_errors [simp]: "errors (check_pkgs g pkgs) = errors g"
  by (induction pkgs arbitrary: g) simp_all

lemma sortErrors_sorted:
  "sortErrors m file = Some es \<Longrightarrow> sorted (map (\<lambda>e. (Line e, Column e)) es)"
  by (auto simp: sortErrors_def)

text \<open>
  C8, as amended. After a call of \<^verbatim>\<open>Process\<close> that returns no error, for every file key of
  the error map that \<^verbatim>\<open>Report\<close> returns, the errors of that file are in ascending order
  of (line, column); the order need not be strict.
\<close>

theorem Report_errors_ascending_after_Process:
  assumes "fst (Process L gosec tags paths) = None"
      and "snd (snd (Report (snd (Process L gosec tags paths)))) file = Some es"
  shows "sorted (map (\<lambda>e. (Line e, Column e)) es)"
proof -
  from assms(1) obtain pkgs g1 g2 where
    "Process L gosec tags paths =
       (None, check_pkgs (g2\<lparr>errors := sortErrors (errors g2)\<rparr>) pkgs)"
    by (auto simp: Process_def split: prod.splits sum.splits option.splits)
  with assms(2) have "sortErrors (errors g2) file = Some es"
    by (simp add: Report_def)
  then show ?thesis by (rule sortErrors_sorted)
qed

text \<open>Three errors of one file, loaded out of order.\<close>

theorem Report_errors_ascending_after_Process_witness:
  "fst (Process (errors_loader [''main.go:7:2: c'', ''main.go:3:1: a'', ''main.go:3:4: b''])
          new_analyzer [] [''.'']) = None \<and>
   map_option (map (\<lambda>e. (Line e, Column e)))
     (snd (snd (Report (snd (Process
        (errors_loader [''main.go:7:2: c'', ''main.go:3:1: a'', ''main.go:3:4: b''])
        new_analyzer [] [''.''])))) ''main.go'') = Some [(3, 1), (3, 4), (7, 2)] \<and>
   sorted [(3::int, 1::int), (3, 4), (7, 2)]"
proof -
  let ?P = "Process (errors_loader [''main.go:7:2: c'', ''main.go:3:1: a'', ''main.go:3:4: b''])
          new_analyzer [] [''.'']"
  have n: "fst ?P = None"
    by code_simp
  have e: "snd (snd (Report (snd ?P))) ''main.go'' =
             Some [\<lparr>Line = 3, Column = 1, Err = ''a''\<rparr>, \<lparr>Line = 3, Column = 4, Err = ''b''\<rparr>,
                   \<lparr>Line = 7, Column = 2, Err = ''c''\<rparr>]"
    by code_simp
  from Report_errors_ascending_after_Process [OF n e]
  have s: "sorted [(3::int, 1::int), (3, 4), (7, 2)]" by simp
  have m: "map_option (map (\<lambda>e. (Line e, Column e))) (snd (snd (Report (snd ?P))) ''main.go'') =
             Some [(3, 1), (3, 4), (7, 2)]"
    unfolding e by simp
  from n m s show ?thesis by blast
qed

text \<open>
  C8 as written fails: an error reported twice at the same position (as for a
  package and its test variant) appears twice in the file's sequence, which is then not
  strictly ascending.
\<close>

theorem Report_errors_strictly_ascending_counterexample:
  "fst (Process (errors_loader [''main.go:7:2: c'', ''main.go:3:1: a'', ''main.go:3:1: a''])
          new_analyzer [] [''.'']) = None \<and>
   map_option (map (\<lambda>e. (Line e, Column e)))
     (snd (snd (Report (snd (Process
        (errors_loader [''main.go:7:2: c'', ''main.go:3:1: a'', ''main.go:3:1: a''])
        new_analyzer [] [''.''])))) ''main.go'') = Some [(3, 1), (3, 1), (7, 2)] \<and>
   \<not> sorted_wrt (<) [(3::int, 1::int), (3, 1), (7, 2)]"
proof -
  let ?P = "Process (errors_loader [''main.go:7:2: c'', ''main.go:3:1: a'', ''main.go:3:1: a''])
          new_analyzer [] [''.'']"
  have n: "fst ?P = None"
    by code_simp
  have m: "map_option (map (\<lambda>e. (Line e, Column e))) (snd (snd (Report (snd ?P))) ''main.go'') =
             Some [(3, 1), (3, 1), (7, 2)]"
    by code_simp
  have s: "\<not> sorted_wrt (<) [(3::int, 1::int), (3, 1), (7, 2)]"
    by simp
  from n m s show ?thesis by blast
qed

text \<open>When a position is not a number \<^verbatim>\<open>Process\<close> returns the error of \<^verbatim>\<open>Atoi\<close> before
  it sorts: the errors recorded until then stay in the order they were loaded.\<close>

lemma Process_Atoi_error_leaves_errors_unsorted:
  "fst (Process (errors_loader [''main.go:7:2: c'', ''main.go:3:1: a'', ''main.go:x:1: b''])
          new_analyzer [] [''.'']) = Some (ErrSyntax ''x'') \<and>
   map_option (map (\<lambda>e. (Line e, Column e)))
     (snd (snd (Report (snd (Process
        (errors_loader [''main.go:7:2: c'', ''main.go:3:1: a'', ''main.go:x:1: b''])
        new_analyzer [] [''.''])))) ''main.go'') = Some [(7, 2), (3, 1)]"
  by code_simp

subsection \<open>Report and Reset\<close>

text \<open>
  C9. In any analyzer state, \<^verbatim>\<open>Reset()\<close> followed by \<^verbatim>\<open>Report()\<close> yields an empty issue
  sequence and metrics whose four counters (files, lines, suppressions, found) are zero.
\<close>

theorem Reset_then_Report_empty:
  "fst (Report (Reset gosec)) = [] \<and>
   NumFiles (fst (snd (Report (Reset gosec)))) = 0 \<and>
   NumLines (fst (snd (Report (Reset gosec)))) = 0 \<and>
   NumNosec (fst (snd (Report (Reset gosec)))) = 0 \<and>
   NumFound (fst (snd (Report (Reset gosec)))) = 0"
  by (simp add: Report_def Reset_def zero_Metrics_def)

text \<open>
  C10. \<^verbatim>\<open>Reset()\<close> replaces the context, the issue list and the metrics and nothing else:
  the error map that \<^verbatim>\<open>Report()\<close> returns after \<^verbatim>\<open>Reset()\<close> is the one it returned before,
  and the configuration, the logger, the rule set (and the nosec switch) are unchanged.
\<close>

theorem Reset_keeps_errors_and_configuration:
  "snd (snd (Report (Reset gosec))) = snd (snd (Report gosec)) \<and>
   errors (Reset gosec) = errors gosec \<and>
   config (Reset gosec) = config gosec \<and>
   logger (Reset gosec) = logger gosec \<and>
   ruleset (Reset gosec) = ruleset gosec \<and>
   ignoreNosec (Reset gosec) = ignoreNosec gosec \<and>
   ctxt (Reset gosec) = empty_Context \<and>
   issues (Reset gosec) = [] \<and>
   stats (Reset gosec) = zero_Metrics"
  by (simp add: Report_def Reset_def)

end
